theory Spec2Isabelle
  imports Complex_Main "HOL-Library.Multiset"
begin

section \<open>Numbers, colours and cells\<close>

text \<open>
  The program is a TypeScript module. Its \<open>number\<close> values are modelled by the
  mathematical values they stand for: cell coordinates, colours, indices and matrix entries
  built from colours are \<open>int\<close>; the values the elimination of \<open>determinant\<close> divides are
  \<open>real\<close>. Rounding of IEEE doubles is not modelled; the two tolerance literals
  \<open>1e-10\<close> and \<open>0.0001\<close> are the reals \<open>1 / 10 ^ 10\<close> and \<open>1 / 10 ^ 4\<close>.

  The remainder operator \<open>%\<close> of the source truncates towards zero: its result has the
  sign of the dividend.
\<close>

definition js_rem :: "int \<Rightarrow> int \<Rightarrow> int" where
  "js_rem a b = sgn a * (\<bar>a\<bar> mod \<bar>b\<bar>)"

text \<open>\<open>type Color = 0 | 1 | 2 | 3\<close>: 0 transparent, 1 white, 2 black, 3 gray.\<close>

type_synonym Color = int

text \<open>
  \<^verbatim>\<open>
  function relativeColorNum(a: number, b: number): number {
    const diff = ((b - 1) - (a - 1) + 3) % 3
    return diff
  }
  \<close>
\<close>

definition relativeColorNum :: "int \<Rightarrow> int \<Rightarrow> int" where
  "relativeColorNum a b = js_rem ((b - 1) - (a - 1) + 3) 3"

text \<open>\<open>interface TriangleCoord { x: number; y: number; isUp: boolean }\<close>\<close>

record TriangleCoord =
  x :: int
  y :: int
  isUp :: bool

text \<open>
  \<^verbatim>\<open>
  function areAdjacent(a: TriangleCoord, b: TriangleCoord): boolean {
    const dx = b.x - a.x
    const dy = b.y - a.y
    if (a.isUp) {
      if (!b.isUp) {
        if (dx === -1 && dy === 0) return true
        if (dx === 1 && dy === 0) return true
        if (dx === 0 && dy === -1) return true
      }
    } else {
      if (b.isUp) {
        if (dx === -1 && dy === 0) return true
        if (dx === 1 && dy === 0) return true
        if (dx === 0 && dy === 1) return true
      }
    }
    return false
  }
  \<close>
\<close>

definition areAdjacent :: "TriangleCoord \<Rightarrow> TriangleCoord \<Rightarrow> bool" where
  "areAdjacent a b =
     (let dx = x b - x a; dy = y b - y a in
      if isUp a then
        (if \<not> isUp b then
           (if dx = -1 \<and> dy = 0 then True
            else if dx = 1 \<and> dy = 0 then True
            else if dx = 0 \<and> dy = -1 then True
            else False)
         else False)
      else
        (if isUp b then
           (if dx = -1 \<and> dy = 0 then True
            else if dx = 1 \<and> dy = 0 then True
            else if dx = 0 \<and> dy = 1 then True
            else False)
         else False))"

section \<open>Keys of the colour map\<close>

text \<open>
  \<^verbatim>\<open>
  const getKey = (x: number, y: number, isUp: boolean): string => {
    return `${x},${y},${isUp ? 'u' : 'd'}`
  }
  const parseKey = (key: string): TriangleCoord => {
    const parts = key.split(',')
    return { x: parseInt(parts[0]), y: parseInt(parts[1]), isUp: parts[2] === 'u' }
  }
  \<close>
  \<open>showInt\<close> is the decimal text of an integer as the template writes it (for integers
  below \<open>1e21\<close> in size), \<open>parseInt\<close> reads an optional minus sign and the digits that
  follow, \<open>splitComma\<close> is \<open>split(',')\<close>.
\<close>

definition digitChar :: "nat \<Rightarrow> char" where
  "digitChar d = char_of (48 + d)"

function showNat :: "nat \<Rightarrow> string" where
  "showNat n = (if n < 10 then [digitChar n] else showNat (n div 10) @ [digitChar (n mod 10)])"
  by pat_completeness auto
termination
  by (relation "measure (\<lambda>n. n)") auto

declare showNat.simps [simp del]

definition showInt :: "int \<Rightarrow> string" where
  "showInt i = (if i < 0 then CHR ''-'' # showNat (nat (- i)) else showNat (nat i))"

definition getKey :: "TriangleCoord \<Rightarrow> string" where
  "getKey c = showInt (x c) @ '','' @ showInt (y c) @ '','' @ (if isUp c then ''u'' else ''d'')"

definition isDigit :: "char \<Rightarrow> bool" where
  "isDigit ch \<longleftrightarrow> (48 :: nat) \<le> of_char ch \<and> of_char ch \<le> (57 :: nat)"

definition digitVal :: "char \<Rightarrow> nat" where
  "digitVal ch = of_char ch - 48"

definition parseNat :: "string \<Rightarrow> nat" where
  "parseNat s = foldl (\<lambda>acc ch. acc * 10 + digitVal ch) 0 (takeWhile isDigit s)"

definition parseInt :: "string \<Rightarrow> int" where
  "parseInt s = (case s of ch # r \<Rightarrow> if ch = CHR ''-'' then - int (parseNat r) else int (parseNat s)
                 | [] \<Rightarrow> 0)"

fun splitComma :: "string \<Rightarrow> string list" where
  "splitComma [] = [[]]"
| "splitComma (ch # s) =
     (if ch = CHR '','' then [] # splitComma s
      else (case splitComma s of p # ps \<Rightarrow> (ch # p) # ps | [] \<Rightarrow> [[ch]]))"

definition parseKey :: "string \<Rightarrow> TriangleCoord" where
  "parseKey key =
     (let parts = splitComma key in
      \<lparr>x = parseInt (parts ! 0), y = parseInt (parts ! 1), isUp = (parts ! 2 = ''u'')\<rparr>)"

section \<open>The signed matrix\<close>

text \<open>
  \<open>coloredTriangles\<close> entries of \<open>computeMinorDets\<close>:
  \<open>{ coord: TriangleCoord; color: Color }\<close>.
\<close>

record ColoredTri =
  coord :: TriangleCoord
  color :: Color

text \<open>
  A \<open>Map<string, Color>\<close> keeps its entries in insertion order and holds each key once.
  It is modelled as an association list in that order. Every key of every map of the
  program is a string built by \<open>getKey\<close>, and \<open>parseKey\<close> reads back the coordinate it was
  built from (\<open>parseKey_getKey\<close> below), so two keys are equal exactly when their
  coordinates are. A key is therefore modelled by its coordinate, and the calls of \<open>getKey\<close>
  and \<open>parseKey\<close> in the functions below are left out.
\<close>

type_synonym ColorMap = "(TriangleCoord \<times> Color) list"

text \<open>
  \<open>Map.prototype.set\<close>: an existing key keeps its position and takes the new value,
  a new key is appended. \<open>Map.prototype.get\<close>: \<open>undefined\<close> is \<open>None\<close>.
\<close>

fun map_set :: "TriangleCoord \<Rightarrow> Color \<Rightarrow> ColorMap \<Rightarrow> ColorMap" where
  "map_set k v [] = [(k, v)]"
| "map_set k v ((k', v') # rest) =
     (if k' = k then (k, v) # rest else (k', v') # map_set k v rest)"

definition map_get :: "ColorMap \<Rightarrow> TriangleCoord \<Rightarrow> Color option" where
  "map_get colorMap k = map_of colorMap k"

text \<open>
  \<^verbatim>\<open>
  const coloredTriangles: { coord: TriangleCoord; color: Color }[] = []
  colorMap.forEach((color, key) => {
    if (color !== 0) {
      coloredTriangles.push({ coord: parseKey(key), color })
    }
  })
  \<close>
\<close>

definition coloredTriangles :: "ColorMap \<Rightarrow> ColoredTri list" where
  "coloredTriangles colorMap =
     map (\<lambda>(key, c). \<lparr>coord = key, color = c\<rparr>) (filter (\<lambda>(key, c). c \<noteq> 0) colorMap)"

text \<open>Writing one entry of a matrix held as an array of rows: \<open>mat[i][j] = v\<close>.\<close>

definition mat_set :: "'a list list \<Rightarrow> nat \<Rightarrow> nat \<Rightarrow> 'a \<Rightarrow> 'a list list" where
  "mat_set mat i j v = mat[i := (mat ! i)[j := v]]"

text \<open>
  The matrix builder inside \<open>computeMinorDets\<close>:
  \<^verbatim>\<open>
  const mat: number[][] = Array(n).fill(null).map(() => Array(n).fill(0))
  for (let i = 0; i < n; i++) {
    for (let j = 0; j < n; j++) {
      if (i !== j) {
        const ti = coloredTriangles[i]
        const tj = coloredTriangles[j]
        if (areAdjacent(ti.coord, tj.coord)) {
          const rel = relativeColorNum(ti.color, tj.color)
          mat[i][j] = -rel
          mat[i][i] += rel
        }
      }
    }
  }
  \<close>
  \<open>matrixCell\<close> is the body of the inner loop, \<open>matrixRow\<close> the inner loop for one \<open>i\<close>,
  \<open>buildMatrix\<close> the allocation and the outer loop. All indices are below \<open>n\<close>.
\<close>

definition matrixCell :: "ColoredTri list \<Rightarrow> nat \<Rightarrow> nat \<Rightarrow> int list list \<Rightarrow> int list list" where
  "matrixCell tris i j mat =
     (if i \<noteq> j then
        (let ti = tris ! i; tj = tris ! j in
         if areAdjacent (coord ti) (coord tj) then
           (let rel = relativeColorNum (color ti) (color tj);
                mat1 = mat_set mat i j (- rel)
            in mat_set mat1 i i (mat1 ! i ! i + rel))
         else mat)
      else mat)"

definition matrixRow :: "ColoredTri list \<Rightarrow> nat \<Rightarrow> int list list \<Rightarrow> int list list" where
  "matrixRow tris i mat = fold (matrixCell tris i) [0..<length tris] mat"

definition buildMatrix :: "ColoredTri list \<Rightarrow> int list list" where
  "buildMatrix tris =
     (let n = length tris in
      fold (matrixRow tris) [0..<n] (replicate n (replicate n 0)))"

text \<open>
  A closed form of the builder, used to reason about its loops: \<open>adjRel tris i j\<close> is what
  the pair \<open>(i, j)\<close> contributes, \<open>rowPartial tris i k\<close> is row \<open>i\<close> after the inner loop has
  handled the columns below \<open>k\<close>, \<open>signedRow tris i\<close> the finished row.
\<close>

definition adjRel :: "ColoredTri list \<Rightarrow> nat \<Rightarrow> nat \<Rightarrow> int" where
  "adjRel tris i j =
     (if j \<noteq> i \<and> areAdjacent (coord (tris ! i)) (coord (tris ! j))
      then relativeColorNum (color (tris ! i)) (color (tris ! j)) else 0)"

definition rowPartial :: "ColoredTri list \<Rightarrow> nat \<Rightarrow> nat \<Rightarrow> int list" where
  "rowPartial tris i k =
     map (\<lambda>j. if j = i then (\<Sum>l<k. adjRel tris i l)
               else if j < k then - adjRel tris i j else 0) [0..<length tris]"

definition signedRow :: "ColoredTri list \<Rightarrow> nat \<Rightarrow> int list" where
  "signedRow tris i = rowPartial tris i (length tris)"

section \<open>The determinant\<close>

text \<open>
  \<^verbatim>\<open>
  function determinant(matrix: number[][]): number {
    const n = matrix.length
    if (n === 0) return 1
    if (n === 1) return matrix[0][0]
    const m = matrix.map(row => [...row])
    let det = 1
    for (let i = 0; i < n; i++) {
      let maxRow = i
      for (let k = i + 1; k < n; k++) {
        if (Math.abs(m[k][i]) > Math.abs(m[maxRow][i])) {
          maxRow = k
        }
      }
      if (Math.abs(m[maxRow][i]) < 1e-10) {
        return 0
      }
      if (maxRow !== i) {
        [m[i], m[maxRow]] = [m[maxRow], m[i]]
        det *= -1
      }
      det *= m[i][i]
      for (let k = i + 1; k < n; k++) {
        const factor = m[k][i] / m[i][i]
        for (let j = i; j < n; j++) {
          m[k][j] -= factor * m[i][j]
        }
      }
    }
    return det
  }
  \<close>
  This section is the value the function returns, with the working copy \<open>m\<close> passed
  along as a list of rows; a later section has the same function on a store of array
  objects. All reads are in range when the matrix is square.
\<close>

text \<open>The pivot search: the loop over \<open>k\<close> that sets \<open>maxRow\<close>.\<close>

definition findMaxRow :: "real list list \<Rightarrow> nat \<Rightarrow> nat \<Rightarrow> nat" where
  "findMaxRow m i n =
     fold (\<lambda>k maxRow. if \<bar>m ! k ! i\<bar> > \<bar>m ! maxRow ! i\<bar> then k else maxRow) [Suc i..<n] i"

text \<open>\<open>[m[i], m[maxRow]] = [m[maxRow], m[i]]\<close>\<close>

definition swapRows :: "'a list \<Rightarrow> nat \<Rightarrow> nat \<Rightarrow> 'a list" where
  "swapRows m i maxRow = (m[i := m ! maxRow])[maxRow := m ! i]"

text \<open>The loop over \<open>j\<close> for one row \<open>k\<close>, and the loop over \<open>k\<close>.\<close>

definition eliminateRow :: "real list list \<Rightarrow> nat \<Rightarrow> nat \<Rightarrow> nat \<Rightarrow> real list list" where
  "eliminateRow m i k n =
     (let factor = m ! k ! i / m ! i ! i in
      fold (\<lambda>j m'. mat_set m' k j (m' ! k ! j - factor * m' ! i ! j)) [i..<n] m)"

definition eliminate :: "real list list \<Rightarrow> nat \<Rightarrow> nat \<Rightarrow> real list list" where
  "eliminate m i n = fold (\<lambda>k m'. eliminateRow m' i k n) [Suc i..<n] m"

text \<open>
  One iteration of the loop over \<open>i\<close> on the state \<open>(m, det)\<close>: \<open>None\<close> is the early
  \<open>return 0\<close>, \<open>Some\<close> the state the next iteration starts from.
\<close>

definition pivotStep :: "nat \<Rightarrow> nat \<Rightarrow> real list list \<times> real \<Rightarrow> (real list list \<times> real) option" where
  "pivotStep n i s =
     (case s of (m, det) \<Rightarrow>
        let maxRow = findMaxRow m i n in
        if \<bar>m ! maxRow ! i\<bar> < 1 / 10 ^ 10 then None
        else
          let (m1, det1) = (if maxRow \<noteq> i then (swapRows m i maxRow, det * (- 1)) else (m, det));
              det2 = det1 * (m1 ! i ! i)
          in Some (eliminate m1 i n, det2))"

function elimLoop :: "nat \<Rightarrow> nat \<Rightarrow> real list list \<times> real \<Rightarrow> real" where
  "elimLoop n i s =
     (if i < n then
        (case pivotStep n i s of
           None \<Rightarrow> 0
         | Some s' \<Rightarrow> elimLoop n (Suc i) s')
      else snd s)"
  by pat_completeness auto
termination
  by (relation "measure (\<lambda>(n, i, s). n - i)") auto

declare elimLoop.simps [simp del]

definition determinant :: "real list list \<Rightarrow> real" where
  "determinant matrix =
     (let n = length matrix in
      if n = 0 then 1
      else if n = 1 then matrix ! 0 ! 0
      else elimLoop n 0 (map (\<lambda>row. row) matrix, 1))"

text \<open>
  The state of the elimination when iteration \<open>i\<close> of the outer loop starts, if the loop
  gets there: \<open>stateAfter n i s\<close> runs iterations \<open>0, \<dots>, i - 1\<close> from \<open>s\<close>.
\<close>

fun stateAfter :: "nat \<Rightarrow> nat \<Rightarrow> real list list \<times> real \<Rightarrow> (real list list \<times> real) option" where
  "stateAfter n 0 s = Some s"
| "stateAfter n (Suc i) s =
     (case stateAfter n i s of None \<Rightarrow> None | Some s' \<Rightarrow> pivotStep n i s')"

section \<open>Minors and the acceptance test\<close>

text \<open>
  \<open>xs.filter((_, k) => k !== i)\<close>: the elements whose index is not \<open>i\<close>, in order.
\<close>

definition filterIndexNot :: "nat \<Rightarrow> 'a list \<Rightarrow> 'a list" where
  "filterIndexNot i xs = map snd (filter (\<lambda>(k, v). k \<noteq> i) (zip [0..<length xs] xs))"

text \<open>
  \<^verbatim>\<open>
  const minor = mat
    .filter((_, ri) => ri !== i)
    .map(row => row.filter((_, ci) => ci !== i))
  \<close>
\<close>

definition minorOf :: "'a list list \<Rightarrow> nat \<Rightarrow> 'a list list" where
  "minorOf mat i = map (\<lambda>row. filterIndexNot i row) (filterIndexNot i mat)"

text \<open>
  The minor as the specification words it: the matrix with row \<open>i\<close> and column \<open>i\<close>
  deleted. It is compared below with \<open>minorOf\<close>, which follows the code.
\<close>

definition deleteAt :: "nat \<Rightarrow> 'a list \<Rightarrow> 'a list" where
  "deleteAt i xs = take i xs @ drop (Suc i) xs"


text \<open>
  \<^verbatim>\<open>
  const computeMinorDets = (colorMap: Map<string, Color>): { i: number; det: number }[] => {
    const coloredTriangles = ...
    const n = coloredTriangles.length
    if (n <= 1) return []
    const mat = ...
    return mat.map((_, i) => {
      const minor = ...
      return { i, det: determinant(minor) }
    })
  }
  \<close>
  The entries of \<open>mat\<close> are integers; \<open>determinant\<close> computes on them as reals.
\<close>

definition computeMinorDets :: "ColorMap \<Rightarrow> (nat \<times> real) list" where
  "computeMinorDets colorMap =
     (let tris = coloredTriangles colorMap;
          n = length tris
      in if n \<le> 1 then []
         else
           let mat = buildMatrix tris in
           map (\<lambda>i. (i, determinant (map (map real_of_int) (minorOf mat i)))) [0..<length mat])"

text \<open>
  The acceptance test of both search modes:
  \<open>const allNonZero = dets.length > 0 && dets.every(d => Math.abs(d.det) > 0.0001)\<close>
\<close>

definition allNonZero :: "(nat \<times> real) list \<Rightarrow> bool" where
  "allNonZero dets = (length dets > 0 \<and> list_all (\<lambda>d. \<bar>snd d\<bar> > 1 / 10 ^ 4) dets)"




section \<open>Connected components\<close>

text \<open>The value \<open>computeConnectedComponents\<close> returns: \<open>{ white, black, gray }\<close>.\<close>

record ConnectedCounts =
  white :: nat
  black :: nat
  gray :: nat

text \<open>
  The three cells the flood fill looks at from a cell:
  \<^verbatim>\<open>
  const neighbors: TriangleCoord[] = coord.isUp
    ? [ { x: coord.x - 1, y: coord.y, isUp: false },
        { x: coord.x + 1, y: coord.y, isUp: false },
        { x: coord.x, y: coord.y - 1, isUp: false } ]
    : [ { x: coord.x - 1, y: coord.y, isUp: true },
        { x: coord.x + 1, y: coord.y, isUp: true },
        { x: coord.x, y: coord.y + 1, isUp: true } ]
  \<close>
\<close>

definition neighbors :: "TriangleCoord \<Rightarrow> TriangleCoord list" where
  "neighbors c =
     (if isUp c then
        [\<lparr>x = x c - 1, y = y c, isUp = False\<rparr>,
         \<lparr>x = x c + 1, y = y c, isUp = False\<rparr>,
         \<lparr>x = x c, y = y c - 1, isUp = False\<rparr>]
      else
        [\<lparr>x = x c - 1, y = y c, isUp = True\<rparr>,
         \<lparr>x = x c + 1, y = y c, isUp = True\<rparr>,
         \<lparr>x = x c, y = y c + 1, isUp = True\<rparr>])"

text \<open>
  \<^verbatim>\<open>
  for (const n of neighbors) {
    const nKey = getKey(n.x, n.y, n.isUp)
    if (!visited.has(nKey) && colorMap.get(nKey) === targetColor) {
      stack.push(nKey)
    }
  }
  \<close>
  The stack is a list whose head is the top: \<open>push\<close> is \<open>#\<close>, \<open>pop\<close> takes the head.
\<close>

definition pushNeighbors ::
  "ColorMap \<Rightarrow> Color \<Rightarrow> TriangleCoord set \<Rightarrow> TriangleCoord list \<Rightarrow> TriangleCoord list
   \<Rightarrow> TriangleCoord list" where
  "pushNeighbors colorMap targetColor visited ns stack =
     fold (\<lambda>n st. if n \<notin> visited \<and> map_get colorMap n = Some targetColor then n # st else st)
       ns stack"

text \<open>
  \<^verbatim>\<open>
  const dfs = (startKey: string, targetColor: Color) => {
    const stack = [startKey]
    while (stack.length > 0) {
      const key = stack.pop()!
      if (visited.has(key)) continue
      const color = colorMap.get(key)
      if (color !== targetColor) continue
      visited.add(key)
      const coord = parseKey(key)
      const neighbors = ...
      for (const n of neighbors) ...
    }
  }
  \<close>
  \<open>dfsLoop\<close> is the while loop on the pair of the stack and the shared \<open>visited\<close> set, which
  it returns; \<open>dfs\<close> starts it.
\<close>

function dfsLoop ::
  "ColorMap \<Rightarrow> Color \<Rightarrow> TriangleCoord list \<Rightarrow> TriangleCoord set \<Rightarrow> TriangleCoord set" where
  "dfsLoop colorMap targetColor [] visited = visited"
| "dfsLoop colorMap targetColor (key # stack) visited =
     (if key \<in> visited then dfsLoop colorMap targetColor stack visited
      else if map_get colorMap key \<noteq> Some targetColor then dfsLoop colorMap targetColor stack visited
      else dfsLoop colorMap targetColor
             (pushNeighbors colorMap targetColor (insert key visited) (neighbors key) stack)
             (insert key visited))"
  by pat_completeness auto
termination
proof (relation "inv_image (less_than <*lex*> less_than)
    (\<lambda>(colorMap, targetColor, stack, visited).
       (card (fst ` set colorMap - visited), length stack))")
  show "wf (inv_image (less_than <*lex*> less_than)
    (\<lambda>(colorMap :: ColorMap, targetColor :: Color, stack :: TriangleCoord list,
        visited :: TriangleCoord set).
       (card (fst ` set colorMap - visited), length stack)))"
    by (intro wf_inv_image wf_lex_prod wf_less_than)
next
  fix colorMap :: ColorMap and targetColor :: Color and key stack and visited :: "TriangleCoord set"
  assume "key \<notin> visited" and "\<not> map_get colorMap key \<noteq> Some targetColor"
  then have "key \<in> fst ` set colorMap - visited"
    by (auto simp add: map_get_def dest: map_of_SomeD intro: rev_image_eqI)
  then have "card (fst ` set colorMap - insert key visited) < card (fst ` set colorMap - visited)"
    by (intro psubset_card_mono) auto
  then show "((colorMap, targetColor,
        pushNeighbors colorMap targetColor (insert key visited) (neighbors key) stack,
        insert key visited),
       (colorMap, targetColor, key # stack, visited))
      \<in> inv_image (less_than <*lex*> less_than)
          (\<lambda>(colorMap, targetColor, stack, visited).
             (card (fst ` set colorMap - visited), length stack))"
    by simp
qed simp_all

definition dfs :: "ColorMap \<Rightarrow> TriangleCoord \<Rightarrow> Color \<Rightarrow> TriangleCoord set \<Rightarrow> TriangleCoord set" where
  "dfs colorMap startKey targetColor visited = dfsLoop colorMap targetColor [startKey] visited"

text \<open>
  \<^verbatim>\<open>
  for (const [key, color] of colorMap) {
    if (color === 0 || visited.has(key)) continue
    dfs(key, color)
    if (color === 1) result.white++
    else if (color === 2) result.black++
    else if (color === 3) result.gray++
  }
  return result
  \<close>
\<close>

definition countStep ::
  "ColorMap \<Rightarrow> TriangleCoord \<times> Color \<Rightarrow> TriangleCoord set \<times> ConnectedCounts
   \<Rightarrow> TriangleCoord set \<times> ConnectedCounts" where
  "countStep colorMap entry s =
     (case entry of (key, c) \<Rightarrow>
      case s of (visited, result) \<Rightarrow>
        if c = 0 \<or> key \<in> visited then (visited, result)
        else
          (dfs colorMap key c visited,
           if c = 1 then result\<lparr>white := white result + 1\<rparr>
           else if c = 2 then result\<lparr>black := black result + 1\<rparr>
           else if c = 3 then result\<lparr>gray := gray result + 1\<rparr>
           else result))"

definition computeConnectedComponents :: "ColorMap \<Rightarrow> ConnectedCounts" where
  "computeConnectedComponents colorMap =
     snd (fold (countStep colorMap) colorMap ({}, \<lparr>white = 0, black = 0, gray = 0\<rparr>))"

text \<open>
  \<^verbatim>\<open>
  const computePriorityScore = (connected) => {
    return connected.white * connected.black * connected.gray
  }
  \<close>
\<close>

definition computePriorityScore :: "ConnectedCounts \<Rightarrow> nat" where
  "computePriorityScore cc = white cc * black cc * gray cc"

text \<open>
  What the counts are compared with. Two cells of colour \<open>t\<close> are linked when they are
  adjacent; \<open>component colorMap t k\<close> is the set of cells linked to \<open>k\<close> through cells of
  colour \<open>t\<close>, and \<open>componentCount colorMap t\<close> the number of such sets among the cells of
  colour \<open>t\<close>: the number of maximal connected sets of that colour under \<open>areAdjacent\<close>.
  The remaining definitions state the invariant of the counting loop after the entries
  \<open>pre\<close>: the cells visited are those of the components met so far, no link leaves them,
  and each count is the number of components of its colour met so far.
\<close>

definition sameColorEdges :: "ColorMap \<Rightarrow> Color \<Rightarrow> (TriangleCoord \<times> TriangleCoord) set" where
  "sameColorEdges colorMap t =
     {(a, b). map_get colorMap a = Some t \<and> map_get colorMap b = Some t \<and> areAdjacent a b}"

definition component :: "ColorMap \<Rightarrow> Color \<Rightarrow> TriangleCoord \<Rightarrow> TriangleCoord set" where
  "component colorMap t k = (sameColorEdges colorMap t)\<^sup>* `` {k}"

definition componentCount :: "ColorMap \<Rightarrow> Color \<Rightarrow> nat" where
  "componentCount colorMap t = card (component colorMap t ` {k. map_get colorMap k = Some t})"

definition closedUnder :: "ColorMap \<Rightarrow> TriangleCoord set \<Rightarrow> bool" where
  "closedUnder colorMap visited \<longleftrightarrow>
     (\<forall>t a b. a \<in> visited \<longrightarrow> (a, b) \<in> sameColorEdges colorMap t \<longrightarrow> b \<in> visited)"

definition componentsSeen :: "ColorMap \<Rightarrow> (TriangleCoord \<times> Color) list \<Rightarrow> Color \<Rightarrow> TriangleCoord set set" where
  "componentsSeen colorMap pre t = component colorMap t ` {k. (k, t) \<in> set pre}"

definition cellsSeen :: "ColorMap \<Rightarrow> (TriangleCoord \<times> Color) list \<Rightarrow> TriangleCoord set" where
  "cellsSeen colorMap pre = (\<Union>(k, c)\<in>{e \<in> set pre. snd e \<noteq> 0}. component colorMap c k)"

definition countInv ::
  "ColorMap \<Rightarrow> (TriangleCoord \<times> Color) list \<Rightarrow> TriangleCoord set \<times> ConnectedCounts \<Rightarrow> bool" where
  "countInv colorMap pre s \<longleftrightarrow>
     fst s = cellsSeen colorMap pre
     \<and> closedUnder colorMap (fst s)
     \<and> white (snd s) = card (componentsSeen colorMap pre 1)
     \<and> black (snd s) = card (componentsSeen colorMap pre 2)
     \<and> gray (snd s) = card (componentsSeen colorMap pre 3)"

section \<open>Exhaustive search\<close>

text \<open>
  \<^verbatim>\<open>
  const indexToColors = (index: number, targetShape: TriangleCoord[]): Map<string, Color> => {
    const newColors = new Map<string, Color>()
    let remaining = index
    for (let i = 0; i < targetShape.length; i++) {
      const coord = targetShape[i]
      const key = getKey(coord.x, coord.y, coord.isUp)
      const colorValue = (remaining % 3) + 1 as Color
      newColors.set(key, colorValue)
      remaining = Math.floor(remaining / 3)
    }
    return newColors
  }
  \<close>
  The index is a counter that starts at 0 and is only incremented: a \<open>nat\<close>, on which \<open>%\<close>
  is \<open>mod\<close> and \<open>Math.floor(remaining / 3)\<close> is \<open>div\<close>. \<open>indexLoop\<close> is the loop over the cells
  of the shape in order, on the state \<open>(remaining, newColors)\<close>.
\<close>

fun indexLoop :: "TriangleCoord list \<Rightarrow> nat \<Rightarrow> ColorMap \<Rightarrow> ColorMap" where
  "indexLoop [] remaining newColors = newColors"
| "indexLoop (c # rest) remaining newColors =
     indexLoop rest (remaining div 3) (map_set c (int (remaining mod 3) + 1) newColors)"

definition indexToColors :: "nat \<Rightarrow> TriangleCoord list \<Rightarrow> ColorMap" where
  "indexToColors index targetShape = indexLoop targetShape index []"

text \<open>An entry of the result list \<open>results\<close> (the state \<open>foundResults\<close>).\<close>

record SearchResult =
  colors :: ColorMap
  dets :: "(nat \<times> real) list"
  attempt :: nat
  connected :: ConnectedCounts

text \<open>
  The body of the batch loop of \<open>exhaustiveStep\<close> for one \<open>currentIndex\<close>:
  \<^verbatim>\<open>
  const testColors = indexToColors(currentIndex, targetShape)
  const dets = computeMinorDets(testColors)
  const allNonZero = dets.length > 0 && dets.every(d => Math.abs(d.det) > 0.0001)
  if (allNonZero) {
    const connected = computeConnectedComponents(testColors)
    results.push({ colors: new Map(testColors), dets: [...dets],
                   attempt: currentIndex + 1, connected })
  }
  \<close>
\<close>

definition tryIndex :: "TriangleCoord list \<Rightarrow> nat \<Rightarrow> SearchResult list \<Rightarrow> SearchResult list" where
  "tryIndex targetShape currentIndex results =
     (let testColors = indexToColors currentIndex targetShape;
          ds = computeMinorDets testColors
      in if allNonZero ds then
           results @ [\<lparr>colors = testColors, dets = ds, attempt = currentIndex + 1,
                       connected = computeConnectedComponents testColors\<rparr>]
         else results)"

text \<open>
  \<^verbatim>\<open>
  const batchSize = Math.min(1000, total - currentIndex)
  for (let i = 0; i < batchSize && currentIndex < total; i++, currentIndex++) { ... }
  \<close>
  \<open>batchLoop\<close> is this loop on \<open>(currentIndex, results)\<close>, with the loop body as the
  parameter \<open>body\<close>; in the source the body is \<open>tryIndex targetShape\<close>. The variable
  \<open>total\<close> of the source is \<open>tot\<close>.
\<close>

function batchLoop ::
  "(nat \<Rightarrow> 'a \<Rightarrow> 'a) \<Rightarrow> nat \<Rightarrow> nat \<Rightarrow> nat \<Rightarrow> nat \<times> 'a \<Rightarrow> nat \<times> 'a" where
  "batchLoop body tot batchSize i s =
     (case s of (currentIndex, results) \<Rightarrow>
        if i < batchSize \<and> currentIndex < tot then
          batchLoop body tot batchSize (Suc i) (Suc currentIndex, body currentIndex results)
        else s)"
  by pat_completeness auto
termination
  by (relation "measure (\<lambda>(body, tot, batchSize, i, s). batchSize - i)") auto

declare batchLoop.simps [simp del]

datatype Status = Running | Completed | Cancelled

text \<open>
  One call of \<open>exhaustiveStep\<close>: \<open>stopped\<close> is the value of \<open>stopSearchRef.current\<close> it reads.
  It ends the search as cancelled, or runs one batch and then either asks for another
  call (\<open>requestAnimationFrame(exhaustiveStep)\<close>, status \<open>Running\<close>) or ends the search as
  completed.
  \<^verbatim>\<open>
  const exhaustiveStep = () => {
    if (stopSearchRef.current) { ...; setFoundResults([...results]); setIsSearching(false); return }
    const batchSize = Math.min(1000, total - currentIndex)
    for (...) { ... }
    if (currentIndex < total) { requestAnimationFrame(exhaustiveStep) }
    else { ...; setFoundResults([...results]); setIsSearching(false) }
  }
  \<close>
\<close>

definition exhaustiveStep ::
  "(nat \<Rightarrow> 'a \<Rightarrow> 'a) \<Rightarrow> nat \<Rightarrow> bool \<Rightarrow> nat \<times> 'a \<Rightarrow> Status \<times> nat \<times> 'a" where
  "exhaustiveStep body tot stopped s =
     (if stopped then (Cancelled, s)
      else
        let batchSize = min 1000 (tot - fst s);
            s' = batchLoop body tot batchSize 0 s
        in if fst s' < tot then (Running, s') else (Completed, s'))"

text \<open>What one batch computes, and that a call asking for another one made progress.\<close>

lemma batchLoop_fold:
  "batchLoop body tot batchSize i (ci, rs)
   = (ci + min (batchSize - i) (tot - ci),
      fold body [ci..<ci + min (batchSize - i) (tot - ci)] rs)"
proof (induction body tot batchSize i "(ci, rs)" arbitrary: ci rs rule: batchLoop.induct)
  case (1 body tot batchSize i)
  show ?case
  proof (cases "i < batchSize \<and> ci < tot")
    case True
    define k where "k = min (batchSize - Suc i) (tot - Suc ci)"
    have m: "min (batchSize - i) (tot - ci) = Suc k"
      using True by (auto simp add: min_def k_def)
    have "[ci..<Suc (ci + k)] = ci # [Suc ci..<Suc (ci + k)]"
      by (rule upt_conv_Cons) simp
    moreover have "batchLoop body tot batchSize (Suc i) (Suc ci, body ci rs)
      = (Suc ci + k, fold body [Suc ci..<Suc ci + k] (body ci rs))"
      using True "1.hyps" [of ci rs] by (simp add: k_def del: batchLoop.simps)
    ultimately show ?thesis
      using True by (subst batchLoop.simps) (simp add: m del: batchLoop.simps upt_Suc)
  next
    case False
    then show ?thesis by (subst batchLoop.simps) auto
  qed
qed


lemma exhaustiveStep_run:
  assumes "k = min 1000 (tot - ci)"
  shows "exhaustiveStep body tot False (ci, rs)
   = (if ci + k < tot then Running else Completed, ci + k, fold body [ci..<ci + k] rs)"
proof -
  have "batchLoop body tot k 0 (ci, rs) = (ci + k, fold body [ci..<ci + k] rs)"
    unfolding batchLoop_fold assms by (simp only: diff_zero min.right_idem)
  then show ?thesis
    unfolding assms by (cases "ci + min 1000 (tot - ci) < tot")
      (simp_all only: exhaustiveStep_def Let_def fst_conv if_False if_True)
qed

lemma exhaustiveStep_progress:
  assumes "exhaustiveStep body tot stopped s = (Running, s')"
  shows "fst s < fst s' \<and> fst s' < tot"
proof -
  obtain ci rs where s: "s = (ci, rs)" by (cases s)
  define k where "k = min 1000 (tot - ci)"
  have ns: "\<not> stopped" using assms by (auto simp add: exhaustiveStep_def)
  from assms have *: "ci + k < tot" "fst s' = ci + k"
    unfolding s using ns by (auto simp add: exhaustiveStep_run [OF k_def] split: if_splits)
  then have "0 < k" by (auto simp add: k_def)
  with * show ?thesis by (simp add: s)
qed

text \<open>
  The search in exhaustive mode: \<open>exhaustiveStep\<close> is called again on every animation frame
  while it asks for it. \<open>stop t\<close> is the value of the cancellation flag that call number
  \<open>t\<close> reads; the flag is set from outside (\<open>handleStopSearch\<close>). Each call that asks for
  another one has advanced \<open>currentIndex\<close>, so the search ends.
\<close>

function exhaustiveRun ::
  "(nat \<Rightarrow> 'a \<Rightarrow> 'a) \<Rightarrow> nat \<Rightarrow> (nat \<Rightarrow> bool) \<Rightarrow> nat \<Rightarrow> nat \<times> 'a \<Rightarrow> Status \<times> nat \<times> 'a" where
  "exhaustiveRun body tot stop tick s =
     (case exhaustiveStep body tot (stop tick) s of
        (Running, s') \<Rightarrow> exhaustiveRun body tot stop (Suc tick) s'
      | r \<Rightarrow> r)"
  by pat_completeness auto
termination
proof (relation "measure (\<lambda>(body, tot, stop, tick, s). tot - fst s)")
  fix body :: "nat \<Rightarrow> 'a \<Rightarrow> 'a" and tot :: nat and stop :: "nat \<Rightarrow> bool" and tick :: nat
    and s :: "nat \<times> 'a" and x1 :: Status and x2 :: "nat \<times> 'a"
  assume "(x1, x2) = exhaustiveStep body tot (stop tick) s" "x1 = Running"
  then have "exhaustiveStep body tot (stop tick) s = (Running, x2)" by simp
  from exhaustiveStep_progress [OF this]
  show "((body, tot, stop, Suc tick, x2), (body, tot, stop, tick, s))
        \<in> measure (\<lambda>(body, tot, stop, tick, s). tot - fst s)"
    by auto
qed simp

text \<open>
  \<^verbatim>\<open>
  const total = Math.pow(3, targetShape.length)
  let currentIndex = 0
  const results = []
  ...
  requestAnimationFrame(exhaustiveStep)
  \<close>
\<close>

definition exhaustiveSearch ::
  "TriangleCoord list \<Rightarrow> (nat \<Rightarrow> bool) \<Rightarrow> Status \<times> nat \<times> SearchResult list" where
  "exhaustiveSearch targetShape stop =
     exhaustiveRun (tryIndex targetShape) (3 ^ length targetShape) stop 0 (0, [])"

text \<open>
  The reading of an index the enumeration is compared with: \<open>digitColors index n\<close> lists,
  least significant first, the first \<open>n\<close> base-3 digits of \<open>index\<close>, each plus one;
  \<open>allColorings targetShape\<close> is the set of colourings that give each cell of the shape, in
  the order of the shape, one of the colours 1, 2, 3; \<open>acceptsIndex\<close> and \<open>resultAt\<close> are
  the test and the entry that the loop body \<open>tryIndex\<close> makes for an index.
\<close>

definition digitColors :: "nat \<Rightarrow> nat \<Rightarrow> Color list" where
  "digitColors index n = map (\<lambda>i. int ((index div 3 ^ i) mod 3) + 1) [0..<n]"

definition allColorings :: "TriangleCoord list \<Rightarrow> ColorMap set" where
  "allColorings targetShape =
     {cm. map fst cm = targetShape \<and> (\<forall>c\<in>set (map snd cm). c \<in> {1, 2, 3})}"

definition acceptsIndex :: "TriangleCoord list \<Rightarrow> nat \<Rightarrow> bool" where
  "acceptsIndex targetShape index = allNonZero (computeMinorDets (indexToColors index targetShape))"

definition resultAt :: "TriangleCoord list \<Rightarrow> nat \<Rightarrow> SearchResult" where
  "resultAt targetShape index =
     \<lparr>colors = indexToColors index targetShape,
      dets = computeMinorDets (indexToColors index targetShape),
      attempt = index + 1,
      connected = computeConnectedComponents (indexToColors index targetShape)\<rparr>"

section \<open>Randomized search\<close>

text \<open>
  \<open>Math.random()\<close> is an input of the program: \<open>rnd k\<close> is the value its \<open>k\<close>-th call
  returns, a number with \<open>0 \<le> rnd k < 1\<close>, and the functions that draw numbers take the
  count of calls made so far and return the new count.
  \<open>(Math.floor(Math.random() * 3) + 1) as Color\<close> on a drawn number \<open>r\<close>:
\<close>

definition randomColor :: "real \<Rightarrow> Color" where
  "randomColor r = \<lfloor>r * 3\<rfloor> + 1"

text \<open>
  The function of the unnamed source file (the one with the two search modes):
  \<^verbatim>\<open>
  const randomizeColors = (targetShape: TriangleCoord[], currentColors: Map<string, Color>)
      : Map<string, Color> => {
    const newColors = new Map<string, Color>()
    targetShape.forEach(coord => {
      const key = getKey(coord.x, coord.y, coord.isUp)
      const currentColor = currentColors.get(key)
      if (currentColor === undefined || currentColor === 0) {
        return
      }
      const randomColor = (Math.floor(Math.random() * 3) + 1) as Color
      newColors.set(key, randomColor)
    })
    return newColors
  }
  \<close>
  \<open>randomizeLoop\<close> is the \<open>forEach\<close> on the state (count of draws, \<open>newColors\<close>).
\<close>

fun randomizeLoop ::
  "(nat \<Rightarrow> real) \<Rightarrow> ColorMap \<Rightarrow> TriangleCoord list \<Rightarrow> nat \<times> ColorMap \<Rightarrow> nat \<times> ColorMap" where
  "randomizeLoop rnd currentColors [] s = s"
| "randomizeLoop rnd currentColors (c # rest) (p, newColors) =
     (let currentColor = map_get currentColors c in
      if currentColor = None \<or> currentColor = Some 0 then
        randomizeLoop rnd currentColors rest (p, newColors)
      else
        randomizeLoop rnd currentColors rest
          (Suc p, map_set c (randomColor (rnd p)) newColors))"

definition randomizeColors ::
  "(nat \<Rightarrow> real) \<Rightarrow> TriangleCoord list \<Rightarrow> ColorMap \<Rightarrow> nat \<Rightarrow> nat \<times> ColorMap" where
  "randomizeColors rnd targetShape currentColors p =
     randomizeLoop rnd currentColors targetShape (p, [])"

text \<open>
  The function of the same name in \<open>src/App.tsx\<close>, which has one search mode and takes no
  current colouring:
  \<^verbatim>\<open>
  const randomizeColors = (targetShape: TriangleCoord[]): Map<string, Color> => {
    const newColors = new Map<string, Color>()
    targetShape.forEach(coord => {
      const key = getKey(coord.x, coord.y, coord.isUp)
      const randomColor = (Math.floor(Math.random() * 3) + 1) as Color
      newColors.set(key, randomColor)
    })
    return newColors
  }
  \<close>
\<close>

fun randomizeLoop_App ::
  "(nat \<Rightarrow> real) \<Rightarrow> TriangleCoord list \<Rightarrow> nat \<times> ColorMap \<Rightarrow> nat \<times> ColorMap" where
  "randomizeLoop_App rnd [] s = s"
| "randomizeLoop_App rnd (c # rest) (p, newColors) =
     randomizeLoop_App rnd rest (Suc p, map_set c (randomColor (rnd p)) newColors)"

definition randomizeColors_App ::
  "(nat \<Rightarrow> real) \<Rightarrow> TriangleCoord list \<Rightarrow> nat \<Rightarrow> nat \<times> ColorMap" where
  "randomizeColors_App rnd targetShape p = randomizeLoop_App rnd targetShape (p, [])"

text \<open>
  An entry of \<open>candidates\<close> in \<open>searchStep\<close>, \<open>{ colors, connected, priority, attempt }\<close>. The
  fields \<open>colors\<close>, \<open>connected\<close> and \<open>attempt\<close> are written \<open>cColors\<close>, \<open>cConnected\<close> and
  \<open>cAttempt\<close>, the plain names being those of the result entries.
\<close>

record Candidate =
  cColors :: ColorMap
  cConnected :: ConnectedCounts
  priority :: nat
  cAttempt :: nat

text \<open>
  Step 1 of \<open>searchStep\<close>:
  \<^verbatim>\<open>
  for (let i = 0; i < batchSize; i++) {
    attempts++
    const testColors = randomizeColors(targetShape, colors)
    const connected = computeConnectedComponents(testColors)
    const priority = computePriorityScore(connected)
    candidates.push({ colors: testColors, connected, priority, attempt: attempts })
  }
  \<close>
  \<open>generateLoop\<close> runs the iterations that remain, on the state
  (\<open>attempts\<close>, count of draws, \<open>candidates\<close>).
\<close>

fun generateLoop ::
  "(nat \<Rightarrow> real) \<Rightarrow> TriangleCoord list \<Rightarrow> ColorMap \<Rightarrow> nat \<Rightarrow> nat \<times> nat \<times> Candidate list
   \<Rightarrow> nat \<times> nat \<times> Candidate list" where
  "generateLoop rnd targetShape currentColors 0 s = s"
| "generateLoop rnd targetShape currentColors (Suc remaining) (attempts, p, candidates) =
     (let attempts' = attempts + 1;
          (p', testColors) = randomizeColors rnd targetShape currentColors p;
          cc = computeConnectedComponents testColors;
          pr = computePriorityScore cc
      in generateLoop rnd targetShape currentColors remaining
           (attempts', p',
            candidates @ [\<lparr>cColors = testColors, cConnected = cc, priority = pr,
                           cAttempt = attempts'\<rparr>]))"

text \<open>
  Step 3 of \<open>searchStep\<close>, for one candidate, on the state (\<open>evaluated\<close>, \<open>results\<close>):
  \<^verbatim>\<open>
  evaluated++
  const dets = computeMinorDets(candidate.colors)
  const allNonZero = dets.length > 0 && dets.every(d => Math.abs(d.det) > 0.0001)
  if (allNonZero) {
    results.push({ colors: new Map(candidate.colors), dets: [...dets],
                   attempt: candidate.attempt, connected: candidate.connected })
  }
  \<close>
\<close>

definition candidateResult :: "Candidate \<Rightarrow> SearchResult" where
  "candidateResult cand =
     \<lparr>colors = cColors cand, dets = computeMinorDets (cColors cand),
      attempt = cAttempt cand, connected = cConnected cand\<rparr>"

definition evaluateCandidate ::
  "Candidate \<Rightarrow> nat \<times> SearchResult list \<Rightarrow> nat \<times> SearchResult list" where
  "evaluateCandidate cand s =
     (case s of (evaluated, found) \<Rightarrow>
        (evaluated + 1,
         if allNonZero (computeMinorDets (cColors cand)) then found @ [candidateResult cand]
         else found))"

text \<open>
  The variables the random search keeps between calls of \<open>searchStep\<close>: \<open>attempts\<close>,
  \<open>evaluated\<close>, the result list \<open>results\<close> (here \<open>found\<close>), and the count of draws made.
\<close>

record RandomSession =
  attempts :: nat
  evaluated :: nat
  found :: "SearchResult list"
  drawn :: nat

text \<open>
  One call of \<open>searchStep\<close>. \<open>stopped\<close> is the value of \<open>stopSearchRef.current\<close> it reads;
  unless it is set the call always asks for another one. Step 2 is
  \<open>candidates.sort((a, b) => a.priority - b.priority)\<close>: \<open>Array.prototype.sort\<close> is stable,
  as \<open>sort_key\<close> is. The constant \<open>batchSize = 1000\<close> of the source is a parameter here, so
  the source's function is \<open>searchStep 1000\<close>.
\<close>

definition searchStep ::
  "nat \<Rightarrow> (nat \<Rightarrow> real) \<Rightarrow> TriangleCoord list \<Rightarrow> ColorMap \<Rightarrow> bool \<Rightarrow> RandomSession
   \<Rightarrow> Status \<times> RandomSession" where
  "searchStep batchSize rnd targetShape currentColors stopped s =
     (if stopped then (Cancelled, s)
      else
        let (attempts', p', candidates) =
              generateLoop rnd targetShape currentColors batchSize (attempts s, drawn s, []);
            sorted_candidates = sort_key priority candidates;
            (evaluated', found') = fold evaluateCandidate sorted_candidates (evaluated s, found s)
        in (Running,
            \<lparr>attempts = attempts', evaluated = evaluated', found = found', drawn = p'\<rparr>))"

text \<open>
  Notions the statements about the random search use. \<open>coloredCells\<close> are the cells of
  the shape that the current colouring colours, in the order of the shape; \<open>drawColors rnd p n\<close>
  are the colours of the \<open>n\<close> draws that follow draw \<open>p\<close>; \<open>visitedCells\<close> is the set
  \<open>visited\<close> when \<open>computeConnectedComponents\<close> returns; \<open>generatedBatch\<close> is the list
  \<open>candidates\<close> that step 1 of a call of \<open>searchStep\<close> builds, in generation order;
  \<open>accepted\<close> is the acceptance test on a candidate; \<open>scored\<close> says that a candidate
  carries the component counts of its colouring and their product.
\<close>

definition coloredCells :: "ColorMap \<Rightarrow> TriangleCoord list \<Rightarrow> TriangleCoord list" where
  "coloredCells currentColors targetShape =
     filter (\<lambda>c. map_get currentColors c \<noteq> None \<and> map_get currentColors c \<noteq> Some 0) targetShape"

definition drawColors :: "(nat \<Rightarrow> real) \<Rightarrow> nat \<Rightarrow> nat \<Rightarrow> Color list" where
  "drawColors rnd p n = map (\<lambda>k. randomColor (rnd (p + k))) [0..<n]"

definition visitedCells :: "ColorMap \<Rightarrow> TriangleCoord set" where
  "visitedCells colorMap =
     fst (fold (countStep colorMap) colorMap ({}, \<lparr>white = 0, black = 0, gray = 0\<rparr>))"

definition generatedBatch ::
  "nat \<Rightarrow> (nat \<Rightarrow> real) \<Rightarrow> TriangleCoord list \<Rightarrow> ColorMap \<Rightarrow> RandomSession \<Rightarrow> Candidate list" where
  "generatedBatch batchSize rnd targetShape currentColors s =
     snd (snd (generateLoop rnd targetShape currentColors batchSize (attempts s, drawn s, [])))"

definition accepted :: "Candidate \<Rightarrow> bool" where
  "accepted cand = allNonZero (computeMinorDets (cColors cand))"

definition scored :: "Candidate \<Rightarrow> bool" where
  "scored cand \<longleftrightarrow>
     cConnected cand = computeConnectedComponents (cColors cand)
     \<and> priority cand = white (cConnected cand) * black (cConnected cand) * gray (cConnected cand)"

section \<open>The determinant on a store of array objects\<close>

text \<open>
  In the program a matrix is an array object whose elements are references to row
  objects, and \<open>determinant\<close> writes into arrays. To say what it writes to, this section
  has the same code on a store: \<open>store ! p\<close> is the object at address \<open>p\<close>, a row of
  numbers or an array of references, and a new object takes the next free address.
  An address outside the store or of the wrong kind of object reads as the empty array;
  the type \<open>number[][]\<close> of the parameter excludes both.
\<close>

datatype Obj = NumArr "real list" | RefArr "nat list"

type_synonym Store = "Obj list"

definition alloc :: "Store \<Rightarrow> Obj \<Rightarrow> nat \<times> Store" where
  "alloc store obj = (length store, store @ [obj])"

definition numsAt :: "Store \<Rightarrow> nat \<Rightarrow> real list" where
  "numsAt store p =
     (if p < length store then (case store ! p of NumArr row \<Rightarrow> row | RefArr rs \<Rightarrow> []) else [])"

definition refsAt :: "Store \<Rightarrow> nat \<Rightarrow> nat list" where
  "refsAt store p =
     (if p < length store then (case store ! p of RefArr rs \<Rightarrow> rs | NumArr row \<Rightarrow> []) else [])"

text \<open>The matrix that the array at \<open>p\<close> holds: the rows its elements refer to.\<close>

definition matAt :: "Store \<Rightarrow> nat \<Rightarrow> real list list" where
  "matAt store p = map (numsAt store) (refsAt store p)"

text \<open>\<open>m[k][j]\<close> as a read and as the target of an assignment, for the array \<open>m\<close> at \<open>pm\<close>.\<close>

definition readCell :: "Store \<Rightarrow> nat \<Rightarrow> nat \<Rightarrow> nat \<Rightarrow> real" where
  "readCell store pm k j = numsAt store (refsAt store pm ! k) ! j"

definition writeCell :: "Store \<Rightarrow> nat \<Rightarrow> nat \<Rightarrow> nat \<Rightarrow> real \<Rightarrow> Store" where
  "writeCell store pm k j v =
     (let p = refsAt store pm ! k in store[p := NumArr ((numsAt store p)[j := v])])"

text \<open>
  \<open>rows.map(row => f(row))\<close> for a function \<open>f\<close> that builds a new row from the numbers of
  a row: one new row object per element, in order. \<open>[...row]\<close> is the case where \<open>f\<close> is the
  identity, \<open>row.filter((_, ci) => ci !== i)\<close> the case \<open>filterIndexNot i\<close>.
\<close>

fun mapRows :: "(real list \<Rightarrow> real list) \<Rightarrow> Store \<Rightarrow> nat list \<Rightarrow> nat list \<times> Store" where
  "mapRows f store [] = ([], store)"
| "mapRows f store (r # rs) =
     (let (p, store1) = alloc store (NumArr (f (numsAt store r)));
          (ps, store2) = mapRows f store1 rs
      in (p # ps, store2))"

definition findMaxRow_h :: "Store \<Rightarrow> nat \<Rightarrow> nat \<Rightarrow> nat \<Rightarrow> nat" where
  "findMaxRow_h store pm i n =
     fold (\<lambda>k maxRow. if \<bar>readCell store pm k i\<bar> > \<bar>readCell store pm maxRow i\<bar> then k else maxRow)
       [Suc i..<n] i"

text \<open>\<open>[m[i], m[maxRow]] = [m[maxRow], m[i]]\<close> writes two elements of the array at \<open>pm\<close>.\<close>

definition swapRows_h :: "Store \<Rightarrow> nat \<Rightarrow> nat \<Rightarrow> nat \<Rightarrow> Store" where
  "swapRows_h store pm i maxRow = store[pm := RefArr (swapRows (refsAt store pm) i maxRow)]"

definition eliminateRow_h :: "Store \<Rightarrow> nat \<Rightarrow> nat \<Rightarrow> nat \<Rightarrow> nat \<Rightarrow> Store" where
  "eliminateRow_h store pm i k n =
     (let factor = readCell store pm k i / readCell store pm i i in
      fold (\<lambda>j store'. writeCell store' pm k j
                (readCell store' pm k j - factor * readCell store' pm i j))
        [i..<n] store)"

definition eliminate_h :: "Store \<Rightarrow> nat \<Rightarrow> nat \<Rightarrow> nat \<Rightarrow> Store" where
  "eliminate_h store pm i n = fold (\<lambda>k store'. eliminateRow_h store' pm i k n) [Suc i..<n] store"

definition pivotStep_h :: "nat \<Rightarrow> nat \<Rightarrow> nat \<Rightarrow> Store \<times> real \<Rightarrow> (Store \<times> real) option" where
  "pivotStep_h n pm i s =
     (case s of (store, det) \<Rightarrow>
        let maxRow = findMaxRow_h store pm i n in
        if \<bar>readCell store pm maxRow i\<bar> < 1 / 10 ^ 10 then None
        else
          let (store1, det1) =
                (if maxRow \<noteq> i then (swapRows_h store pm i maxRow, det * (- 1)) else (store, det));
              det2 = det1 * readCell store1 pm i i
          in Some (eliminate_h store1 pm i n, det2))"

text \<open>The loop over \<open>i\<close>; the result is the returned number and the store at the return.\<close>

function elimLoop_h :: "nat \<Rightarrow> nat \<Rightarrow> nat \<Rightarrow> Store \<times> real \<Rightarrow> real \<times> Store" where
  "elimLoop_h n pm i s =
     (if i < n then
        (case pivotStep_h n pm i s of
           None \<Rightarrow> (0, fst s)
         | Some s' \<Rightarrow> elimLoop_h n pm (Suc i) s')
      else (snd s, fst s))"
  by pat_completeness auto
termination
  by (relation "measure (\<lambda>(n, pm, i, s). n - i)") auto

declare elimLoop_h.simps [simp del]

text \<open>
  \<open>determinant(matrix)\<close> for the matrix at address \<open>a\<close>: \<open>matrix.map(row => [...row])\<close>
  makes the new rows and then the new array \<open>m\<close> of references to them.
\<close>

definition determinant_h :: "Store \<Rightarrow> nat \<Rightarrow> real \<times> Store" where
  "determinant_h store a =
     (let rs = refsAt store a;
          n = length rs
      in if n = 0 then (1, store)
         else if n = 1 then (numsAt store (rs ! 0) ! 0, store)
         else
           let (ps, store1) = mapRows (\<lambda>row. row) store rs;
               (pm, store2) = alloc store1 (RefArr ps)
           in elimLoop_h n pm 0 (store2, 1))"

text \<open>
  The minors of the matrix \<open>mat\<close> at address \<open>a\<close>, as at the end of \<open>computeMinorDets\<close>:
  \<^verbatim>\<open>
  return mat.map((_, i) => {
    const minor = mat
      .filter((_, ri) => ri !== i)
      .map(row => row.filter((_, ci) => ci !== i))
    return { i, det: determinant(minor) }
  })
  \<close>
  \<open>mat.filter\<close> makes a new array that refers to rows of \<open>mat\<close>; \<open>.map\<close> makes new rows and
  a new array of references to them, which is the argument of \<open>determinant\<close>.
\<close>

definition minorDet_h :: "Store \<Rightarrow> nat \<Rightarrow> nat \<Rightarrow> real \<times> Store" where
  "minorDet_h store a i =
     (let (pf, store1) = alloc store (RefArr (filterIndexNot i (refsAt store a)));
          (ps, store2) = mapRows (filterIndexNot i) store1 (refsAt store1 pf);
          (pminor, store3) = alloc store2 (RefArr ps)
      in determinant_h store3 pminor)"

definition minorDets_h :: "Store \<Rightarrow> nat \<Rightarrow> (nat \<times> real) list \<times> Store" where
  "minorDets_h store a =
     fold (\<lambda>i (ds, store'). case minorDet_h store' a i of (d, store'') \<Rightarrow> (ds @ [(i, d)], store''))
       [0..<length (refsAt store a)] ([], store)"

text \<open>
  A matrix as the type \<open>number[][]\<close> has it: the object at \<open>a\<close> is an array of references,
  each to a row of numbers.
\<close>

definition wfMatrix :: "Store \<Rightarrow> nat \<Rightarrow> bool" where
  "wfMatrix store a \<longleftrightarrow>
     a < length store
     \<and> (case store ! a of
          RefArr rs \<Rightarrow> list_all (\<lambda>r. r < length store
                              \<and> (case store ! r of NumArr row \<Rightarrow> True | RefArr qs \<Rightarrow> False)) rs
        | NumArr row \<Rightarrow> False)"

text \<open>
  The invariant of the elimination on the store: the array at \<open>pm\<close> holds distinct
  references to rows that are all at addresses from \<open>L\<close> on, as is \<open>pm\<close>, and the rows
  read through it are the matrix \<open>m\<close>.
\<close>

definition working :: "nat \<Rightarrow> nat \<Rightarrow> Store \<Rightarrow> real list list \<Rightarrow> bool" where
  "working L pm store m \<longleftrightarrow>
     L \<le> pm \<and> pm < length store
     \<and> (\<exists>refs. store ! pm = RefArr refs \<and> distinct refs \<and> length refs = length m
          \<and> (\<forall>k<length m. L \<le> refs ! k \<and> refs ! k < length store \<and> refs ! k \<noteq> pm
                \<and> store ! (refs ! k) = NumArr (m ! k)))"

section \<open>Facts about the remainder\<close>

lemma js_rem_nonneg: "0 \<le> a \<Longrightarrow> 0 < b \<Longrightarrow> js_rem a b = a mod b"
  by (cases "a = 0") (simp_all add: js_rem_def)

section \<open>Keys and coordinates\<close>

lemma isDigit_digitChar: "d < 10 \<Longrightarrow> isDigit (digitChar d) \<and> digitVal (digitChar d) = d"
  by (simp add: isDigit_def digitVal_def digitChar_def)

lemma not_isDigit: "\<not> isDigit CHR '',''" "\<not> isDigit CHR ''-''"
  by (simp_all add: isDigit_def)

lemma showNat_digits: "\<forall>ch\<in>set (showNat n). isDigit ch"
proof (induction n rule: showNat.induct)
  case (1 n)
  show ?case
  proof (cases "n < 10")
    case True
    then show ?thesis by (subst showNat.simps) (simp add: isDigit_digitChar)
  next
    case False
    with 1 show ?thesis by (subst showNat.simps) (simp add: isDigit_digitChar)
  qed
qed

lemma showNat_nonempty: "showNat n \<noteq> []"
  by (subst showNat.simps) simp

lemma foldl_showNat:
  "foldl (\<lambda>acc ch. acc * 10 + digitVal ch) 0 (showNat n) = n"
proof (induction n rule: showNat.induct)
  case (1 n)
  show ?case
  proof (cases "n < 10")
    case True
    then show ?thesis by (subst showNat.simps) (simp add: isDigit_digitChar)
  next
    case False
    with 1 show ?thesis by (subst showNat.simps) (simp add: isDigit_digitChar)
  qed
qed


lemma parseNat_showNat: "parseNat (showNat n) = n"
proof -
  have "takeWhile isDigit (showNat n) = showNat n"
    unfolding takeWhile_eq_all_conv by (rule showNat_digits)
  then show ?thesis by (simp only: parseNat_def foldl_showNat)
qed

lemma parseInt_showInt: "parseInt (showInt i) = i"
proof (cases "i < 0")
  case True
  then show ?thesis by (simp add: parseInt_def showInt_def parseNat_showNat)
next
  case False
  obtain ch r where s: "showNat (nat i) = ch # r"
    using showNat_nonempty [of "nat i"] by (cases "showNat (nat i)") auto
  with showNat_digits [of "nat i"] have "isDigit ch" by simp
  with not_isDigit(2) have "ch \<noteq> CHR ''-''" by auto
  with False s parseNat_showNat [of "nat i"] show ?thesis
    by (simp add: parseInt_def showInt_def)
qed

lemma showInt_no_comma: "CHR '','' \<notin> set (showInt i)"
  using showNat_digits not_isDigit(1) by (auto simp add: showInt_def)

lemma splitComma_no_comma: "CHR '','' \<notin> set a \<Longrightarrow> splitComma a = [a]"
  by (induction a) auto

lemma splitComma_append:
  "CHR '','' \<notin> set a \<Longrightarrow> splitComma (a @ CHR '','' # s) = a # splitComma s"
proof (induction a)
  case Nil
  show ?case by simp
next
  case (Cons ch a)
  then show ?case by auto
qed

lemma parseKey_getKey: "parseKey (getKey c) = c"
proof -
  let ?u = "if isUp c then ''u'' else ''d''"
  have u: "CHR '','' \<notin> set ?u" by simp
  have "splitComma (getKey c) = [showInt (x c), showInt (y c), ?u]"
    unfolding getKey_def
    by (simp only: append_Cons append_Nil splitComma_append [OF showInt_no_comma]
        splitComma_no_comma [OF u])
  then show ?thesis
    by (simp add: parseKey_def parseInt_showInt)
qed

lemma getKey_inj: "getKey a = getKey b \<longleftrightarrow> a = b"
  by (metis parseKey_getKey)

section \<open>Rows of the signed matrix\<close>

lemma length_rowPartial [simp]: "length (rowPartial tris i k) = length tris"
  by (simp add: rowPartial_def)

lemma rowPartial_0: "rowPartial tris i 0 = replicate (length tris) 0"
  by (intro nth_equalityI) (simp_all add: rowPartial_def)

lemma rowPartial_Suc:
  assumes "i < length tris" "k < length tris"
  shows "rowPartial tris i (Suc k) =
    (if k = i then rowPartial tris i k
     else (rowPartial tris i k)[k := - adjRel tris i k, i := (\<Sum>l<k. adjRel tris i l) + adjRel tris i k])"
  using assms
  by (intro nth_equalityI) (auto simp add: rowPartial_def nth_list_update less_Suc_eq adjRel_def)

lemma matrixCell_rowPartial:
  assumes "i < length tris" "k < length tris" "length mat = length tris"
  shows "matrixCell tris i k (mat[i := rowPartial tris i k]) = mat[i := rowPartial tris i (Suc k)]"
proof (cases "k = i")
  case True
  with assms show ?thesis by (simp add: matrixCell_def rowPartial_Suc)
next
  case False
  have diag: "rowPartial tris i k ! i = (\<Sum>l<k. adjRel tris i l)"
    using assms by (simp add: rowPartial_def)
  show ?thesis
  proof (cases "areAdjacent (coord (tris ! i)) (coord (tris ! k))")
    case True
    with False assms diag show ?thesis
      by (simp add: matrixCell_def Let_def mat_set_def adjRel_def rowPartial_Suc)
  next
    case adj: False
    have "adjRel tris i k = 0" using adj by (simp add: adjRel_def)
    moreover have "rowPartial tris i k ! k = 0" using assms False by (simp add: rowPartial_def)
    ultimately have "rowPartial tris i (Suc k) = rowPartial tris i k"
      using assms False diag
      by (simp add: rowPartial_Suc) (metis list_update_id)
    with adj False show ?thesis by (simp add: matrixCell_def)
  qed
qed

lemma matrixRow_partial:
  assumes "i < length tris" "length mat = length tris" "k \<le> length tris"
  shows "fold (matrixCell tris i) [0..<k] (mat[i := replicate (length tris) 0])
         = mat[i := rowPartial tris i k]"
  using assms(3)
proof (induction k)
  case 0
  show ?case by (simp add: rowPartial_0)
next
  case (Suc k)
  then show ?case using assms(1,2) by (simp add: matrixCell_rowPartial)
qed

lemma matrixRow_signedRow:
  assumes "i < length tris" "length mat = length tris" "mat ! i = replicate (length tris) 0"
  shows "matrixRow tris i mat = mat[i := signedRow tris i]"
proof -
  have "mat[i := replicate (length tris) 0] = mat"
    using assms by (simp add: list_update_same_conv)
  with matrixRow_partial [OF assms(1,2) order_refl] show ?thesis
    by (simp add: matrixRow_def signedRow_def)
qed

lemma buildMatrix_partial:
  "k \<le> length tris \<Longrightarrow>
   fold (matrixRow tris) [0..<k] (replicate (length tris) (replicate (length tris) 0))
   = map (\<lambda>i. if i < k then signedRow tris i else replicate (length tris) 0) [0..<length tris]"
proof (induction k)
  case 0
  show ?case by (intro nth_equalityI) simp_all
next
  case (Suc k)
  let ?m = "map (\<lambda>i. if i < k then signedRow tris i else replicate (length tris) 0) [0..<length tris]"
  have "matrixRow tris k ?m = ?m[k := signedRow tris k]"
    using Suc.prems by (intro matrixRow_signedRow) simp_all
  also have "\<dots> = map (\<lambda>i. if i < Suc k then signedRow tris i else replicate (length tris) 0) [0..<length tris]"
    using Suc.prems by (intro nth_equalityI) (auto simp add: nth_list_update less_Suc_eq)
  finally show ?case using Suc by simp
qed

lemma buildMatrix_rows: "buildMatrix tris = map (signedRow tris) [0..<length tris]"
  using buildMatrix_partial [of "length tris" tris] by (simp add: buildMatrix_def Let_def cong: map_cong)

lemma sum_list_signedRow:
  assumes "i < length tris"
  shows "sum_list (signedRow tris i) = 0"
proof -
  let ?n = "length tris"
  let ?f = "\<lambda>j. if j = i then (\<Sum>l<?n. adjRel tris i l) else if j < ?n then - adjRel tris i j else 0"
  have "sum_list (signedRow tris i) = (\<Sum>j<?n. ?f j)"
    by (simp add: signedRow_def rowPartial_def interv_sum_list_conv_sum_set_nat atLeast0LessThan)
  also have "\<dots> = ?f i + (\<Sum>j\<in>{..<?n} - {i}. ?f j)"
    using assms by (intro sum.remove) simp_all
  also have "(\<Sum>j\<in>{..<?n} - {i}. ?f j) = (\<Sum>j\<in>{..<?n} - {i}. - adjRel tris i j)"
    by (intro sum.cong) auto
  also have "\<dots> = - (\<Sum>j\<in>{..<?n} - {i}. adjRel tris i j)"
    by (simp add: sum_negf)
  also have "(\<Sum>j<?n. adjRel tris i j) = adjRel tris i i + (\<Sum>j\<in>{..<?n} - {i}. adjRel tris i j)"
    using assms by (intro sum.remove) simp_all
  finally show ?thesis by (simp add: adjRel_def)
qed

lemma adjRel_diag: "(\<Sum>j<length tris. adjRel tris i j)
  = (\<Sum>j | j < length tris \<and> areAdjacent (coord (tris ! i)) (coord (tris ! j)).
       relativeColorNum (color (tris ! i)) (color (tris ! j)))"
proof -
  have self: "\<not> areAdjacent (coord (tris ! i)) (coord (tris ! i))"
    by (simp add: areAdjacent_def)
  have "(\<Sum>j<length tris. adjRel tris i j)
    = (\<Sum>j\<in>{..<length tris}. if areAdjacent (coord (tris ! i)) (coord (tris ! j))
         then relativeColorNum (color (tris ! i)) (color (tris ! j)) else 0)"
    using self by (intro sum.cong) (auto simp add: adjRel_def)
  also have "\<dots> = (\<Sum>j\<in>{j \<in> {..<length tris}. areAdjacent (coord (tris ! i)) (coord (tris ! j))}.
       relativeColorNum (color (tris ! i)) (color (tris ! j)))"
    by (rule sum.inter_filter [symmetric]) simp
  finally show ?thesis by simp
qed

text \<open>
  Claim C4. For every ordered list of coloured cells, each row of the matrix the builder
  produces sums to exactly 0: the matrix is square of the size of the list, its diagonal
  entry in row \<open>i\<close> is the sum of \<open>relativeColorNum (color i) (color j)\<close> over the cells \<open>j\<close>
  adjacent to cell \<open>i\<close>, and its entry in row \<open>i\<close> and column \<open>j \<noteq> i\<close> is
  \<open>- relativeColorNum (color i) (color j)\<close> when the two cells are adjacent and 0 otherwise.
\<close>

theorem buildMatrix_row_sum_zero:
  "i < length tris \<Longrightarrow>
   length (buildMatrix tris) = length tris
   \<and> length (buildMatrix tris ! i) = length tris
   \<and> sum_list (buildMatrix tris ! i) = 0
   \<and> buildMatrix tris ! i ! i
       = (\<Sum>j | j < length tris \<and> areAdjacent (coord (tris ! i)) (coord (tris ! j)).
            relativeColorNum (color (tris ! i)) (color (tris ! j)))
   \<and> (\<forall>j<length tris. j \<noteq> i \<longrightarrow>
         buildMatrix tris ! i ! j
           = (if areAdjacent (coord (tris ! i)) (coord (tris ! j))
              then - relativeColorNum (color (tris ! i)) (color (tris ! j)) else 0))"
proof -
  assume i: "i < length tris"
  then have row: "buildMatrix tris ! i = signedRow tris i"
    by (simp add: buildMatrix_rows)
  have diag: "signedRow tris i ! i = (\<Sum>j<length tris. adjRel tris i j)"
    using i by (simp add: signedRow_def rowPartial_def)
  have off: "signedRow tris i ! j = - adjRel tris i j" if "j < length tris" "j \<noteq> i" for j
    using that by (simp add: signedRow_def rowPartial_def)
  show ?thesis
    using i by (simp add: row buildMatrix_rows sum_list_signedRow diag adjRel_diag off
        signedRow_def [symmetric]) (simp add: adjRel_def signedRow_def)
qed

theorem buildMatrix_row_sum_zero_witness:
  "buildMatrix [\<lparr>coord = \<lparr>x = 0, y = 0, isUp = True\<rparr>, color = 1\<rparr>,
                \<lparr>coord = \<lparr>x = 1, y = 0, isUp = False\<rparr>, color = 2\<rparr>] = [[1, - 1], [- 2, 2]]
   \<and> sum_list (buildMatrix [\<lparr>coord = \<lparr>x = 0, y = 0, isUp = True\<rparr>, color = 1\<rparr>,
                \<lparr>coord = \<lparr>x = 1, y = 0, isUp = False\<rparr>, color = 2\<rparr>] ! 1) = 0
   \<and> buildMatrix [\<lparr>coord = \<lparr>x = 0, y = 0, isUp = True\<rparr>, color = 1\<rparr>,
                \<lparr>coord = \<lparr>x = 1, y = 0, isUp = False\<rparr>, color = 2\<rparr>] ! 1 ! 0
       = - relativeColorNum 2 1"
proof -
  let ?tris = "[\<lparr>coord = \<lparr>x = 0, y = 0, isUp = True\<rparr>, color = 1\<rparr>,
                \<lparr>coord = \<lparr>x = 1, y = 0, isUp = False\<rparr>, color = 2\<rparr>]"
  have len: "1 < length ?tris" by simp
  have adj: "areAdjacent (coord (?tris ! 1)) (coord (?tris ! 0))"
    by (simp add: areAdjacent_def)
  have val: "buildMatrix ?tris = [[1, - 1], [- 2, 2]]"
    by code_simp
  from buildMatrix_row_sum_zero [OF len] adj
  have "sum_list (buildMatrix ?tris ! 1) = 0"
    and "buildMatrix ?tris ! 1 ! 0 = - relativeColorNum 2 1"
    by simp_all
  with val show ?thesis by simp
qed

section \<open>Colour algebra\<close>

text \<open>
  Claim C7. For all colours \<open>a\<close>, \<open>b\<close>, \<open>c\<close> in \<open>{1, 2, 3}\<close>, the cyclic colour difference
  \<open>relativeColorNum a b\<close> is \<open>((b - 1) - (a - 1) + 3) mod 3\<close>, a value in \<open>{0, 1, 2}\<close>;
  the difference of a colour with itself is 0; and for \<open>a \<noteq> b\<close> the differences in the two
  directions add up to 3.
\<close>

theorem relativeColorNum_cyclic:
  "a \<in> {1, 2, 3} \<Longrightarrow> b \<in> {1, 2, 3} \<Longrightarrow> c \<in> {1, 2, 3} \<Longrightarrow>
   relativeColorNum a b = ((b - 1) - (a - 1) + 3) mod 3
   \<and> relativeColorNum a b \<in> {0, 1, 2}
   \<and> relativeColorNum c c = 0
   \<and> (a \<noteq> b \<longrightarrow> relativeColorNum a b + relativeColorNum b a = 3)"
  by (auto simp add: relativeColorNum_def js_rem_def)

theorem relativeColorNum_cyclic_witness:
  "relativeColorNum 1 2 = ((2 - 1) - (1 - 1) + 3) mod 3
   \<and> relativeColorNum 1 2 \<in> {0, 1, 2}
   \<and> relativeColorNum 3 3 = 0
   \<and> relativeColorNum 1 2 + relativeColorNum 2 1 = 3"
  using relativeColorNum_cyclic [of 1 2 3] by simp

text \<open>
  Claim C8. The adjacency predicate is symmetric for all cells (any integer coordinates,
  any orientations), and two cells of the same orientation are never adjacent.
\<close>

theorem areAdjacent_symmetric:
  "areAdjacent a b = areAdjacent b a \<and> (isUp a = isUp b \<longrightarrow> \<not> areAdjacent a b)"
  by (auto simp add: areAdjacent_def Let_def)

theorem areAdjacent_symmetric_witness:
  "areAdjacent \<lparr>x = 0, y = 0, isUp = True\<rparr> \<lparr>x = 1, y = 0, isUp = False\<rparr>
     = areAdjacent \<lparr>x = 1, y = 0, isUp = False\<rparr> \<lparr>x = 0, y = 0, isUp = True\<rparr>
   \<and> areAdjacent \<lparr>x = 0, y = 0, isUp = True\<rparr> \<lparr>x = 1, y = 0, isUp = False\<rparr>
   \<and> \<not> areAdjacent \<lparr>x = 0, y = 0, isUp = True\<rparr> \<lparr>x = 2, y = 0, isUp = True\<rparr>"
  using areAdjacent_symmetric [of "\<lparr>x = 0, y = 0, isUp = True\<rparr>" "\<lparr>x = 1, y = 0, isUp = False\<rparr>"]
    areAdjacent_symmetric [of "\<lparr>x = 0, y = 0, isUp = True\<rparr>" "\<lparr>x = 2, y = 0, isUp = True\<rparr>"]
  by (simp add: areAdjacent_def)

section \<open>The exhaustive enumeration\<close>

declare exhaustiveRun.simps [simp del]

lemma exhaustiveRun_completes:
  "\<forall>t\<ge>tick. \<not> stop t \<Longrightarrow>
   exhaustiveRun body tot stop tick (ci, rs) = (Completed, max ci tot, fold body [ci..<tot] rs)"
proof (induction body tot stop tick "(ci, rs)" arbitrary: ci rs rule: exhaustiveRun.induct)
  case (1 body tot stop tick)
  define k where "k = min 1000 (tot - ci)"
  have kle: "k \<le> tot - ci" by (simp add: k_def)
  have step: "exhaustiveStep body tot (stop tick) (ci, rs)
    = (if ci + k < tot then Running else Completed, ci + k, fold body [ci..<ci + k] rs)"
    using "1.prems" by (simp add: exhaustiveStep_run [OF k_def])
  show ?case
  proof (cases "ci + k < tot")
    case True
    have "[ci..<ci + k + (tot - (ci + k))] = [ci..<ci + k] @ [ci + k..<ci + k + (tot - (ci + k))]"
      by (rule upt_add_eq_append) simp
    moreover have "ci + k + (tot - (ci + k)) = tot" using True by linarith
    ultimately have app: "[ci..<tot] = [ci..<ci + k] @ [ci + k..<tot]" by simp
    have "exhaustiveRun body tot stop (Suc tick) (ci + k, fold body [ci..<ci + k] rs)
      = (Completed, max (ci + k) tot, fold body [ci + k..<tot] (fold body [ci..<ci + k] rs))"
      using True "1.prems" step by (intro "1.hyps") simp_all
    moreover have "max (ci + k) tot = max ci tot" using True by (simp add: max_def)
    ultimately show ?thesis
      using True step by (subst exhaustiveRun.simps) (simp del: exhaustiveRun.simps add: app)
  next
    case False
    then have "ci + k = max ci tot" using kle by (auto simp add: max_def)
    moreover have "[ci..<ci + k] = [ci..<tot]"
    proof (cases "ci < tot")
      case True
      with False kle have "ci + k = tot" by linarith
      then show ?thesis by simp
    next
      case False
      then show ?thesis using kle by simp
    qed
    ultimately show ?thesis using False step
      by (subst exhaustiveRun.simps) (simp del: exhaustiveRun.simps)
  qed
qed


lemma map_set_fresh: "k \<notin> fst ` set cm \<Longrightarrow> map_set k v cm = cm @ [(k, v)]"
  by (induction cm) auto

lemma digitColors_Suc:
  "digitColors r (Suc n) = (int (r mod 3) + 1) # digitColors (r div 3) n"
proof -
  have "[0..<Suc n] = 0 # map Suc [0..<n]"
    by (simp only: map_Suc_upt upt_conv_Cons zero_less_Suc)
  then show ?thesis
    by (simp add: digitColors_def div_mult2_eq del: upt_Suc)
qed

lemma length_digitColors [simp]: "length (digitColors r n) = n"
  by (simp add: digitColors_def)

lemma indexLoop_zip:
  "distinct rest \<Longrightarrow> set rest \<inter> fst ` set acc = {} \<Longrightarrow>
   indexLoop rest r acc = acc @ zip rest (digitColors r (length rest))"
proof (induction rest arbitrary: r acc)
  case Nil
  show ?case by simp
next
  case (Cons c rest)
  from Cons.prems have fresh: "c \<notin> fst ` set acc" by auto
  have "set rest \<inter> fst ` set (acc @ [(c, int (r mod 3) + 1)]) = {}"
    using Cons.prems by auto
  with Cons.IH [of "acc @ [(c, int (r mod 3) + 1)]" "r div 3"] Cons.prems
  show ?case by (simp add: map_set_fresh [OF fresh] digitColors_Suc)
qed

lemma indexToColors_zip:
  "distinct targetShape \<Longrightarrow>
   indexToColors index targetShape = zip targetShape (digitColors index (length targetShape))"
  using indexLoop_zip [of targetShape "[]" index] by (simp add: indexToColors_def)

lemma digitColors_inj:
  "digitColors a n = digitColors b n \<Longrightarrow> a mod 3 ^ n = b mod 3 ^ n"
proof (induction n arbitrary: a b)
  case 0
  show ?case by simp
next
  case (Suc n)
  from Suc.prems have hd: "a mod 3 = b mod 3" and tl: "digitColors (a div 3) n = digitColors (b div 3) n"
    by (simp_all add: digitColors_Suc)
  from Suc.IH [OF tl] have "a div 3 mod 3 ^ n = b div 3 mod 3 ^ n" .
  with hd show ?case by (simp add: mod_mult2_eq)
qed

lemma digitColors_surj:
  "\<forall>c\<in>set cs. c \<in> {1, 2, 3} \<Longrightarrow> \<exists>index<3 ^ length cs. digitColors index (length cs) = cs"
proof (induction cs)
  case Nil
  show ?case by (simp add: digitColors_def)
next
  case (Cons c cs)
  then obtain index where index: "index < 3 ^ length cs" "digitColors index (length cs) = cs"
    by auto
  from Cons.prems have c: "c = 1 \<or> c = 2 \<or> c = 3" by simp
  define d where "d = nat (c - 1)"
  have d: "d < 3" "int d + 1 = c" using c by (auto simp add: d_def)
  have "d + 3 * index < 3 ^ length (c # cs)" using index(1) d(1) by simp
  moreover have "digitColors (d + 3 * index) (length (c # cs)) = c # cs"
    using d index(2) by (simp add: digitColors_Suc)
  ultimately show ?case by blast
qed

lemma digitColors_range: "c \<in> set (digitColors index n) \<Longrightarrow> c \<in> {1, 2, 3}"
proof -
  assume "c \<in> set (digitColors index n)"
  then obtain i where "c = int ((index div 3 ^ i) mod 3) + 1"
    by (auto simp add: digitColors_def)
  moreover have "(index div 3 ^ i) mod 3 < 3" by simp
  ultimately show ?thesis by (simp; linarith)
qed

lemma indexToColors_bij:
  assumes "distinct targetShape"
  shows "bij_betw (\<lambda>index. indexToColors index targetShape) {0..<3 ^ length targetShape}
           (allColorings targetShape)"
proof (rule bij_betwI')
  fix a b :: nat
  assume a: "a \<in> {0..<3 ^ length targetShape}" and b: "b \<in> {0..<3 ^ length targetShape}"
  show "(indexToColors a targetShape = indexToColors b targetShape) = (a = b)"
  proof
    assume "indexToColors a targetShape = indexToColors b targetShape"
    then have "map snd (zip targetShape (digitColors a (length targetShape)))
             = map snd (zip targetShape (digitColors b (length targetShape)))"
      by (simp add: indexToColors_zip [OF assms])
    then have "digitColors a (length targetShape) = digitColors b (length targetShape)"
      by simp
    from digitColors_inj [OF this] a b show "a = b" by simp
  qed simp
next
  fix a :: nat
  assume "a \<in> {0..<3 ^ length targetShape}"
  show "indexToColors a targetShape \<in> allColorings targetShape"
    by (auto simp add: allColorings_def indexToColors_zip [OF assms]
        dest!: set_zip_rightD digitColors_range)
next
  fix cm
  assume "cm \<in> allColorings targetShape"
  then have keys: "map fst cm = targetShape" and cols: "\<forall>c\<in>set (map snd cm). c \<in> {1, 2, 3}"
    by (simp_all add: allColorings_def)
  from digitColors_surj [OF cols] obtain index
    where index: "index < 3 ^ length cm" "digitColors index (length cm) = map snd cm"
    by auto
  have len: "length targetShape = length cm" using keys by auto
  have "indexToColors index targetShape = zip (map fst cm) (map snd cm)"
    using index(2) by (simp add: indexToColors_zip [OF assms] len keys)
  then have "cm = indexToColors index targetShape" by (simp add: zip_map_fst_snd)
  with index(1) len show "\<exists>a\<in>{0..<3 ^ length targetShape}. cm = indexToColors a targetShape"
    by auto
qed

lemma fold_tryIndex:
  "fold (tryIndex targetShape) idxs rs
   = rs @ map (resultAt targetShape) (filter (acceptsIndex targetShape) idxs)"
  by (induction idxs arbitrary: rs) (simp_all add: tryIndex_def Let_def acceptsIndex_def resultAt_def)

lemma fold_collect: "fold (\<lambda>index visited. visited @ [f index]) idxs vs = vs @ map f idxs"
  by (induction idxs arbitrary: vs) simp_all

text \<open>
  Claim C2. For a shape of \<open>N\<close> distinct cells, the colouring built for an index pairs the
  \<open>i\<close>-th cell of the shape with base-3 digit \<open>i\<close> (least significant first) of the index,
  plus one; this is a bijection between the indices \<open>0, \<dots>, 3 ^ N - 1\<close> and the colourings
  of the shape. A search that is never cancelled completes after running its loop body on
  the indices \<open>0, \<dots>, 3 ^ N - 1\<close> in order, once each. Run with a body that only records
  the colouring built for its index, the loops of the search return the list of the
  colourings of \<open>0, \<dots>, 3 ^ N - 1\<close>, which has no duplicates and holds every colouring of
  the shape; run with the body of the source, they return, in index order, the entry of
  every accepted index, with \<open>attempt = index + 1\<close>.
\<close>

theorem exhaustive_enumeration:
  "distinct targetShape \<Longrightarrow>
   (\<forall>index. indexToColors index targetShape
       = zip targetShape (digitColors index (length targetShape)))
   \<and> bij_betw (\<lambda>index. indexToColors index targetShape) {0..<3 ^ length targetShape}
        (allColorings targetShape)
   \<and> ((\<forall>t. \<not> stop t) \<longrightarrow>
        exhaustiveRun (\<lambda>index visited. visited @ [indexToColors index targetShape])
            (3 ^ length targetShape) stop 0 (0, [])
          = (Completed, 3 ^ length targetShape,
             map (\<lambda>index. indexToColors index targetShape) [0..<3 ^ length targetShape])
        \<and> distinct (map (\<lambda>index. indexToColors index targetShape) [0..<3 ^ length targetShape])
        \<and> set (map (\<lambda>index. indexToColors index targetShape) [0..<3 ^ length targetShape])
            = allColorings targetShape
        \<and> exhaustiveSearch targetShape stop
          = (Completed, 3 ^ length targetShape,
             map (resultAt targetShape)
               (filter (acceptsIndex targetShape) [0..<3 ^ length targetShape])))
   \<and> (\<forall>index. attempt (resultAt targetShape index) = index + 1)"
proof -
  assume d: "distinct targetShape"
  let ?n = "3 ^ length targetShape :: nat"
  let ?f = "\<lambda>index. indexToColors index targetShape"
  note bij = indexToColors_bij [OF d]
  have inj: "inj_on ?f (set [0..<?n])" using bij by (simp add: bij_betw_def)
  have img: "?f ` {0..<?n} = allColorings targetShape" using bij by (simp add: bij_betw_def)
  have dist: "distinct (map ?f [0..<?n])" using inj by (simp add: distinct_map)
  have run: "exhaustiveRun body ?n stop 0 (0, init) = (Completed, ?n, fold body [0..<?n] init)"
    if "\<forall>t. \<not> stop t" for body :: "nat \<Rightarrow> 'b \<Rightarrow> 'b" and init
    using exhaustiveRun_completes [of 0 stop body ?n 0 init] that by (simp add: max_def)
  have img': "set (map ?f [0..<?n]) = allColorings targetShape"
    using img by simp
  have visit: "exhaustiveRun (\<lambda>index visited. visited @ [?f index]) ?n stop 0 (0, [])
      = (Completed, ?n, map ?f [0..<?n])" if "\<forall>t. \<not> stop t"
    using run [OF that, of "\<lambda>index visited. visited @ [?f index]" "[]"]
    by (simp only: fold_collect append_Nil)
  have search: "exhaustiveSearch targetShape stop
      = (Completed, ?n, map (resultAt targetShape) (filter (acceptsIndex targetShape) [0..<?n]))"
    if "\<forall>t. \<not> stop t"
    using run [OF that, of "tryIndex targetShape" "[]"]
    by (simp only: exhaustiveSearch_def fold_tryIndex append_Nil)
  have att: "\<forall>index. attempt (resultAt targetShape index) = index + 1"
    by (simp add: resultAt_def)
  have zip: "\<forall>index. ?f index = zip targetShape (digitColors index (length targetShape))"
    using indexToColors_zip [OF d] by simp
  from zip bij visit dist img' search att show ?thesis by blast
qed

theorem exhaustive_enumeration_witness:
  "distinct [\<lparr>x = 0, y = 0, isUp = True\<rparr>, \<lparr>x = 1, y = 0, isUp = False\<rparr>]
   \<and> indexToColors 5 [\<lparr>x = 0, y = 0, isUp = True\<rparr>, \<lparr>x = 1, y = 0, isUp = False\<rparr>]
       = [(\<lparr>x = 0, y = 0, isUp = True\<rparr>, 3), (\<lparr>x = 1, y = 0, isUp = False\<rparr>, 2)]
   \<and> fst (exhaustiveSearch [\<lparr>x = 0, y = 0, isUp = True\<rparr>, \<lparr>x = 1, y = 0, isUp = False\<rparr>]
          (\<lambda>t. False)) = Completed
   \<and> map attempt (snd (snd (exhaustiveSearch
          [\<lparr>x = 0, y = 0, isUp = True\<rparr>, \<lparr>x = 1, y = 0, isUp = False\<rparr>] (\<lambda>t. False))))
       = [2, 3, 4, 6, 7, 8]"
proof -
  let ?shape = "[\<lparr>x = 0, y = 0, isUp = True\<rparr>, \<lparr>x = 1, y = 0, isUp = False\<rparr>]"
  have d: "distinct ?shape" by simp
  have never: "\<forall>t. \<not> (\<lambda>t::nat. False) t" by simp
  from exhaustive_enumeration [OF d, of "\<lambda>t. False"] never
  have "fst (exhaustiveSearch ?shape (\<lambda>t. False)) = Completed" by simp
  moreover have "indexToColors 5 ?shape
      = [(\<lparr>x = 0, y = 0, isUp = True\<rparr>, 3), (\<lparr>x = 1, y = 0, isUp = False\<rparr>, 2)]"
    by code_simp
  moreover have "map attempt (snd (snd (exhaustiveSearch ?shape (\<lambda>t. False)))) = [2, 3, 4, 6, 7, 8]"
    by code_simp
  ultimately show ?thesis using d by simp
qed

section \<open>The determinant of a singular matrix\<close>

lemma findMaxRow_fold_range:
  "i \<le> r \<Longrightarrow> r < n \<Longrightarrow> b \<le> n \<Longrightarrow>
   i \<le> fold (\<lambda>k maxRow. if \<bar>m ! k ! i\<bar> > \<bar>m ! maxRow ! i\<bar> then k else maxRow) [Suc i..<b] r
   \<and> fold (\<lambda>k maxRow. if \<bar>m ! k ! i\<bar> > \<bar>(m :: real list list) ! maxRow ! i\<bar> then k else maxRow) [Suc i..<b] r < n"
proof (induction b)
  case 0
  then show ?case by simp
next
  case (Suc b)
  then show ?case by (cases "Suc i \<le> b") auto
qed

lemma findMaxRow_range: "i < n \<Longrightarrow> i \<le> findMaxRow m i n \<and> findMaxRow m i n < n"
  unfolding findMaxRow_def by (rule findMaxRow_fold_range) simp_all

lemma pivotStep_singular:
  assumes "i < n" and "Max ((\<lambda>r. \<bar>m ! r ! i\<bar>) ` {i..<n}) < 1 / 10 ^ 10"
  shows "pivotStep n i (m, d) = None"
proof -
  from findMaxRow_range [OF assms(1)] have "findMaxRow m i n \<in> {i..<n}" by simp
  then have "\<bar>m ! findMaxRow m i n ! i\<bar> \<le> Max ((\<lambda>r. \<bar>m ! r ! i\<bar>) ` {i..<n})"
    by (intro Max_ge) simp_all
  with assms(2) have "\<bar>m ! findMaxRow m i n ! i\<bar> < 1 / 10 ^ 10" by linarith
  then show ?thesis by (simp add: pivotStep_def Let_def)
qed

lemma elimLoop_stateAfter:
  "i \<le> n \<Longrightarrow> stateAfter n i s0 = Some s \<Longrightarrow> elimLoop n 0 s0 = elimLoop n i s"
proof (induction i arbitrary: s)
  case 0
  then show ?case by simp
next
  case (Suc i)
  from Suc.prems(2) obtain s' where s': "stateAfter n i s0 = Some s'" "pivotStep n i s' = Some s"
    by (auto split: option.splits)
  from Suc.IH [OF _ s'(1)] Suc.prems(1) have "elimLoop n 0 s0 = elimLoop n i s'" by simp
  also have "\<dots> = elimLoop n (Suc i) s"
    using Suc.prems(1) s'(2) by (subst elimLoop.simps) simp
  finally show ?case .
qed

text \<open>
  Claim C3. The determinant of the empty matrix is 1 and the determinant of a one-by-one
  matrix is its entry. For a square matrix of size at least 2: if the elimination reaches
  iteration \<open>i\<close> with working copy \<open>m\<close>, and the largest absolute value in column \<open>i\<close> of
  \<open>m\<close> from row \<open>i\<close> downward is below \<open>1e-10\<close>, then that iteration returns at once,
  with no swap and no elimination, and the determinant is exactly 0.
\<close>

theorem determinant_singular_short_circuit:
  "determinant [] = 1
   \<and> determinant [[k]] = k
   \<and> (2 \<le> length matrix \<and> (\<forall>row\<in>set matrix. length row = length matrix)
        \<and> i < length matrix
        \<and> stateAfter (length matrix) i (matrix, 1) = Some (m, d)
        \<and> Max ((\<lambda>r. \<bar>m ! r ! i\<bar>) ` {i..<length matrix}) < 1 / 10 ^ 10
      \<longrightarrow> pivotStep (length matrix) i (m, d) = None \<and> determinant matrix = 0)"
proof (intro conjI impI)
  show "determinant [] = 1" by (simp add: determinant_def)
  show "determinant [[k]] = k" by (simp add: determinant_def)
next
  assume a: "2 \<le> length matrix \<and> (\<forall>row\<in>set matrix. length row = length matrix)
        \<and> i < length matrix
        \<and> stateAfter (length matrix) i (matrix, 1) = Some (m, d)
        \<and> Max ((\<lambda>r. \<bar>m ! r ! i\<bar>) ` {i..<length matrix}) < 1 / 10 ^ 10"
  then show none: "pivotStep (length matrix) i (m, d) = None"
    by (intro pivotStep_singular) simp_all
  from a have "elimLoop (length matrix) 0 (matrix, 1) = elimLoop (length matrix) i (m, d)"
    by (intro elimLoop_stateAfter) simp_all
  also have "\<dots> = 0" using a none by (subst elimLoop.simps) simp
  finally have "elimLoop (length matrix) 0 (matrix, 1) = 0" .
  moreover from a have "length matrix \<noteq> 0" "length matrix \<noteq> 1" by auto
  ultimately show "determinant matrix = 0"
    by (simp add: determinant_def Let_def del: elimLoop.simps)
qed


theorem determinant_singular_short_circuit_witness:
  "determinant [[2, 0, 1], [1, 3, 2], [1, 1, 1]] = 0
   \<and> stateAfter 3 2 ([[2, 0, 1], [1, 3, 2], [1, 1, 1]], 1)
       = Some ([[2, 0, 1], [0, 3, 3 / 2], [0, 0, 0]], 6)
   \<and> pivotStep 3 2 ([[2, 0, 1], [0, 3, 3 / 2], [0, 0, 0]], 6) = None"
proof -
  let ?matrix = "[[2, 0, 1], [1, 3, 2], [1, 1, 1 :: real]]"
  let ?m = "[[2, 0, 1], [0, 3, 3 / 2], [0, 0, 0 :: real]]"
  have len: "length ?matrix = 3" by simp
  have st: "stateAfter 3 2 (?matrix, 1) = Some (?m, 6)" by code_simp
  have "{2..<3::nat} = {2}" by auto
  then have mx: "Max ((\<lambda>r. \<bar>?m ! r ! 2\<bar>) ` {2..<3}) < 1 / 10 ^ 10" by simp
  have sq: "\<forall>row\<in>set ?matrix. length row = length ?matrix" by simp
  from determinant_singular_short_circuit [of _ ?matrix 2 ?m 6] st mx sq
  have "pivotStep 3 2 (?m, 6) = None \<and> determinant ?matrix = 0"
    unfolding len by simp
  with st show ?thesis by simp
qed

section \<open>The acceptance test\<close>

lemma filterIndexNot_snoc:
  "filterIndexNot i (xs @ [a]) = filterIndexNot i xs @ (if length xs = i then [] else [a])"
  by (simp add: filterIndexNot_def)

lemma filterIndexNot_deleteAt: "filterIndexNot i xs = deleteAt i xs"
proof (induction xs rule: rev_induct)
  case Nil
  show ?case by (simp add: filterIndexNot_def deleteAt_def)
next
  case (snoc a xs)
  show ?case
  proof (cases "i < length xs")
    case True
    then show ?thesis using snoc by (simp add: filterIndexNot_snoc deleteAt_def)
  next
    case False
    then show ?thesis using snoc by (auto simp add: filterIndexNot_snoc deleteAt_def)
  qed
qed


lemma length_buildMatrix [simp]: "length (buildMatrix tris) = length tris"
  by (simp add: buildMatrix_rows)














section \<open>Drawn colourings\<close>

lemma drawColors_Suc: "drawColors rnd p (Suc n) = randomColor (rnd p) # drawColors rnd (Suc p) n"
proof -
  have "[0..<Suc n] = 0 # map Suc [0..<n]"
    by (simp only: map_Suc_upt upt_conv_Cons zero_less_Suc)
  then show ?thesis by (simp add: drawColors_def del: upt_Suc)
qed

lemma length_drawColors [simp]: "length (drawColors rnd p n) = n"
  by (simp add: drawColors_def)

lemma randomizeLoop_zip:
  "distinct rest \<Longrightarrow> set rest \<inter> fst ` set acc = {} \<Longrightarrow>
   randomizeLoop rnd cur rest (p, acc)
   = (p + length (coloredCells cur rest),
      acc @ zip (coloredCells cur rest) (drawColors rnd p (length (coloredCells cur rest))))"
proof (induction rest arbitrary: p acc)
  case Nil
  show ?case by (simp add: coloredCells_def)
next
  case (Cons c rest)
  show ?case
  proof (cases "map_get cur c = None \<or> map_get cur c = Some 0")
    case True
    then have "coloredCells cur (c # rest) = coloredCells cur rest"
      by (auto simp add: coloredCells_def)
    with True Cons show ?thesis by auto
  next
    case False
    then have cells: "coloredCells cur (c # rest) = c # coloredCells cur rest"
      by (simp add: coloredCells_def)
    from Cons.prems have fresh: "c \<notin> fst ` set acc" by auto
    have "set rest \<inter> fst ` set (acc @ [(c, randomColor (rnd p))]) = {}"
      using Cons.prems by auto
    with Cons.IH [of "acc @ [(c, randomColor (rnd p))]" "Suc p"] Cons.prems False
    show ?thesis
      by (auto simp add: cells map_set_fresh [OF fresh] drawColors_Suc Let_def)
  qed
qed

lemma randomizeLoop_App_zip:
  "distinct rest \<Longrightarrow> set rest \<inter> fst ` set acc = {} \<Longrightarrow>
   randomizeLoop_App rnd rest (p, acc)
   = (p + length rest, acc @ zip rest (drawColors rnd p (length rest)))"
proof (induction rest arbitrary: p acc)
  case Nil
  show ?case by simp
next
  case (Cons c rest)
  from Cons.prems have fresh: "c \<notin> fst ` set acc" by auto
  have "set rest \<inter> fst ` set (acc @ [(c, randomColor (rnd p))]) = {}"
    using Cons.prems by auto
  with Cons.IH [of "acc @ [(c, randomColor (rnd p))]" "Suc p"] Cons.prems
  show ?case by (simp add: map_set_fresh [OF fresh] drawColors_Suc)
qed

lemma randomColor_interval:
  "randomColor r = j \<longleftrightarrow> (real_of_int j - 1) / 3 \<le> r \<and> r < real_of_int j / 3"
proof -
  have "randomColor r = j \<longleftrightarrow> \<lfloor>r * 3\<rfloor> = j - 1" by (auto simp add: randomColor_def)
  also have "\<dots> \<longleftrightarrow> real_of_int (j - 1) \<le> r * 3 \<and> r * 3 < real_of_int (j - 1) + 1"
    by (rule floor_eq_iff)
  also have "\<dots> \<longleftrightarrow> (real_of_int j - 1) / 3 \<le> r \<and> r < real_of_int j / 3"
    by (simp add: field_simps)
  finally show ?thesis .
qed

lemma randomColor_range: "0 \<le> r \<Longrightarrow> r < 1 \<Longrightarrow> randomColor r \<in> {1, 2, 3}"
proof -
  assume "0 \<le> r" "r < 1"
  then have "0 \<le> \<lfloor>r * 3\<rfloor>" "\<lfloor>r * 3\<rfloor> < 3" by (simp_all add: floor_less_iff)
  then show ?thesis by (simp add: randomColor_def; linarith)
qed

lemma drawColors_range:
  "\<forall>k. 0 \<le> rnd k \<and> rnd k < 1 \<Longrightarrow> v \<in> set (drawColors rnd p n) \<Longrightarrow> v \<in> {1, 2, 3}"
  using randomColor_range by (auto simp add: drawColors_def)

lemma coloredTriangles_coords:
  "coord ` set (coloredTriangles cm) = {k. \<exists>v. (k, v) \<in> set cm \<and> v \<noteq> 0}"
  by (force simp add: coloredTriangles_def image_iff)

lemma coloredTriangles_coords_subset: "coord ` set (coloredTriangles cm) \<subseteq> fst ` set cm"
  unfolding coloredTriangles_coords by force

lemma dfsLoop_subset:
  "dfsLoop colorMap targetColor stack visited \<subseteq> visited \<union> fst ` set colorMap"
proof (induction colorMap targetColor stack visited rule: dfsLoop.induct)
  case (1 colorMap targetColor visited)
  show ?case by simp
next
  case (2 colorMap targetColor key stack visited)
  show ?case
  proof (cases "key \<in> visited")
    case True
    with 2 show ?thesis by simp
  next
    case False
    show ?thesis
    proof (cases "map_get colorMap key = Some targetColor")
      case True
      then have "key \<in> fst ` set colorMap"
        by (auto simp add: map_get_def dest: map_of_SomeD intro: rev_image_eqI)
      with 2(3) [OF False] True False show ?thesis by auto
    next
      case no: False
      with 2(2) [OF False] False show ?thesis by simp
    qed
  qed
qed

lemma countStep_subset:
  "fst s \<subseteq> fst ` set colorMap \<Longrightarrow> fst (countStep colorMap e s) \<subseteq> fst ` set colorMap"
  using dfsLoop_subset [of colorMap "snd e" "[fst e]" "fst s"]
  by (cases e; cases s) (auto simp add: countStep_def dfs_def)

lemma fold_countStep_subset:
  "fst s \<subseteq> fst ` set colorMap \<Longrightarrow>
   fst (fold (countStep colorMap) es s) \<subseteq> fst ` set colorMap"
  by (induction es arbitrary: s) (simp_all add: countStep_subset)

lemma visitedCells_subset: "visitedCells colorMap \<subseteq> fst ` set colorMap"
  unfolding visitedCells_def by (rule fold_countStep_subset) simp

text \<open>
  Claim C6, as amended. In the source file with the two search modes, for a shape of
  distinct cells, a drawn colouring colours exactly the cells of the shape that the current
  colouring colours with a colour other than 0, in the order of the shape, and the \<open>k\<close>-th
  of them gets the colour \<open>floor(3 r) + 1\<close> of its own draw \<open>r\<close>, the \<open>k\<close>-th draw of the
  call; with draws in \<open>[0, 1)\<close> that colour is 1, 2 or 3, colour \<open>j\<close> for the draws in
  \<open>[(j - 1) / 3, j / 3)\<close>. A cell that the current colouring does not colour is absent from
  the drawn colouring, from the cells the matrix is built on and from the cells the
  component count visits. The function of the same name in \<open>src/App.tsx\<close> takes no
  current colouring and colours every cell of the shape.
\<close>

theorem randomizeColors_domain:
  "distinct targetShape \<Longrightarrow>
   randomizeColors rnd targetShape currentColors p
     = (p + length (coloredCells currentColors targetShape),
        zip (coloredCells currentColors targetShape)
          (drawColors rnd p (length (coloredCells currentColors targetShape))))
   \<and> fst ` set (snd (randomizeColors rnd targetShape currentColors p))
       = {c \<in> set targetShape. map_get currentColors c \<noteq> None \<and> map_get currentColors c \<noteq> Some 0}
   \<and> (\<forall>c. map_get currentColors c = None \<or> map_get currentColors c = Some 0 \<longrightarrow>
         map_get (snd (randomizeColors rnd targetShape currentColors p)) c = None
         \<and> c \<notin> coord ` set (coloredTriangles (snd (randomizeColors rnd targetShape currentColors p)))
         \<and> c \<notin> visitedCells (snd (randomizeColors rnd targetShape currentColors p)))
   \<and> ((\<forall>k. 0 \<le> rnd k \<and> rnd k < 1) \<longrightarrow>
         (\<forall>v\<in>snd ` set (snd (randomizeColors rnd targetShape currentColors p)). v \<in> {1, 2, 3})
         \<and> coord ` set (coloredTriangles (snd (randomizeColors rnd targetShape currentColors p)))
             = {c \<in> set targetShape.
                  map_get currentColors c \<noteq> None \<and> map_get currentColors c \<noteq> Some 0})
   \<and> (\<forall>r j. randomColor r = j \<longleftrightarrow> (real_of_int j - 1) / 3 \<le> r \<and> r < real_of_int j / 3)
   \<and> randomizeColors_App rnd targetShape p
       = (p + length targetShape, zip targetShape (drawColors rnd p (length targetShape)))"
proof -
  assume d: "distinct targetShape"
  let ?L = "coloredCells currentColors targetShape"
  let ?new = "snd (randomizeColors rnd targetShape currentColors p)"
  let ?D = "{c \<in> set targetShape. map_get currentColors c \<noteq> None \<and> map_get currentColors c \<noteq> Some 0}"
  have eq: "randomizeColors rnd targetShape currentColors p
     = (p + length ?L, zip ?L (drawColors rnd p (length ?L)))"
    using randomizeLoop_zip [OF d, of "[]" rnd currentColors p] by (simp add: randomizeColors_def)
  then have new: "?new = zip ?L (drawColors rnd p (length ?L))" by simp
  have keys: "map fst ?new = ?L" by (simp add: new)
  then have "fst ` set ?new = set ?L" by (metis set_map)
  then have dom: "fst ` set ?new = ?D" by (auto simp add: coloredCells_def)
  have out: "map_get ?new c = None \<and> c \<notin> coord ` set (coloredTriangles ?new) \<and> c \<notin> visitedCells ?new"
    if "map_get currentColors c = None \<or> map_get currentColors c = Some 0" for c
  proof -
    from that dom have nk: "c \<notin> fst ` set ?new" by auto
    then have "map_get ?new c = None" by (simp add: map_get_def map_of_eq_None_iff)
    moreover from nk coloredTriangles_coords_subset
    have "c \<notin> coord ` set (coloredTriangles ?new)" by blast
    moreover from nk visitedCells_subset have "c \<notin> visitedCells ?new" by blast
    ultimately show ?thesis by simp
  qed
  have rng: "(\<forall>v\<in>snd ` set ?new. v \<in> {1, 2, 3}) \<and> coord ` set (coloredTriangles ?new) = ?D"
    if r: "\<forall>k. 0 \<le> rnd k \<and> rnd k < 1"
  proof
    have "map snd ?new = drawColors rnd p (length ?L)" by (simp add: new)
    then have vs: "snd ` set ?new = set (drawColors rnd p (length ?L))" by (metis set_map)
    show "\<forall>v\<in>snd ` set ?new. v \<in> {1, 2, 3}"
      unfolding vs using drawColors_range [OF r] by blast
    then have "\<forall>e\<in>set ?new. snd e \<noteq> 0" by auto
    then have "{k. \<exists>v. (k, v) \<in> set ?new \<and> v \<noteq> 0} = fst ` set ?new" by force
    then show "coord ` set (coloredTriangles ?new) = ?D"
      by (simp only: coloredTriangles_coords dom)
  qed
  have app: "randomizeColors_App rnd targetShape p
       = (p + length targetShape, zip targetShape (drawColors rnd p (length targetShape)))"
    using randomizeLoop_App_zip [OF d, of "[]" rnd p] by (simp add: randomizeColors_App_def)
  from eq dom out rng randomColor_interval app show ?thesis by blast
qed

theorem randomizeColors_domain_witness:
  "distinct [\<lparr>x = 0, y = 0, isUp = True\<rparr>, \<lparr>x = 1, y = 0, isUp = False\<rparr>,
             \<lparr>x = 2, y = 0, isUp = True\<rparr>]
   \<and> randomizeColors (\<lambda>k. if k = 0 then 2 / 3 else 1 / 3)
         [\<lparr>x = 0, y = 0, isUp = True\<rparr>, \<lparr>x = 1, y = 0, isUp = False\<rparr>,
          \<lparr>x = 2, y = 0, isUp = True\<rparr>]
         [(\<lparr>x = 0, y = 0, isUp = True\<rparr>, 1), (\<lparr>x = 2, y = 0, isUp = True\<rparr>, 2),
          (\<lparr>x = 1, y = 0, isUp = False\<rparr>, 0)] 0
       = (2, [(\<lparr>x = 0, y = 0, isUp = True\<rparr>, 3), (\<lparr>x = 2, y = 0, isUp = True\<rparr>, 2)])
   \<and> map_get (snd (randomizeColors (\<lambda>k. if k = 0 then 2 / 3 else 1 / 3)
         [\<lparr>x = 0, y = 0, isUp = True\<rparr>, \<lparr>x = 1, y = 0, isUp = False\<rparr>,
          \<lparr>x = 2, y = 0, isUp = True\<rparr>]
         [(\<lparr>x = 0, y = 0, isUp = True\<rparr>, 1), (\<lparr>x = 2, y = 0, isUp = True\<rparr>, 2),
          (\<lparr>x = 1, y = 0, isUp = False\<rparr>, 0)] 0)) \<lparr>x = 1, y = 0, isUp = False\<rparr> = None
   \<and> randomizeColors_App (\<lambda>k. if k = 0 then 2 / 3 else 1 / 3)
         [\<lparr>x = 0, y = 0, isUp = True\<rparr>, \<lparr>x = 1, y = 0, isUp = False\<rparr>,
          \<lparr>x = 2, y = 0, isUp = True\<rparr>] 0
       = (3, [(\<lparr>x = 0, y = 0, isUp = True\<rparr>, 3), (\<lparr>x = 1, y = 0, isUp = False\<rparr>, 2),
              (\<lparr>x = 2, y = 0, isUp = True\<rparr>, 2)])"
proof -
  let ?shape = "[\<lparr>x = 0, y = 0, isUp = True\<rparr>, \<lparr>x = 1, y = 0, isUp = False\<rparr>,
                 \<lparr>x = 2, y = 0, isUp = True\<rparr>]"
  let ?cur = "[(\<lparr>x = 0, y = 0, isUp = True\<rparr>, 1 :: int), (\<lparr>x = 2, y = 0, isUp = True\<rparr>, 2),
               (\<lparr>x = 1, y = 0, isUp = False\<rparr>, 0)]"
  let ?rnd = "\<lambda>k :: nat. if k = 0 then 2 / 3 else 1 / 3 :: real"
  have d: "distinct ?shape" by simp
  have cur: "map_get ?cur \<lparr>x = 1, y = 0, isUp = False\<rparr> = Some 0" by (simp add: map_get_def)
  have r01: "\<forall>k. 0 \<le> ?rnd k \<and> ?rnd k < 1" by simp
  have cells: "coloredCells ?cur ?shape = [\<lparr>x = 0, y = 0, isUp = True\<rparr>, \<lparr>x = 2, y = 0, isUp = True\<rparr>]"
    by (simp add: coloredCells_def map_get_def)
  have draws: "drawColors ?rnd 0 (Suc (Suc 0)) = [3, 2]"
    "drawColors ?rnd 0 (Suc (Suc (Suc 0))) = [3, 2, 2]"
    by (simp_all add: drawColors_def randomColor_def)
  from randomizeColors_domain [OF d, of ?rnd ?cur 0] cur
  have "randomizeColors ?rnd ?shape ?cur 0
      = (0 + length (coloredCells ?cur ?shape),
         zip (coloredCells ?cur ?shape) (drawColors ?rnd 0 (length (coloredCells ?cur ?shape))))"
    and "map_get (snd (randomizeColors ?rnd ?shape ?cur 0)) \<lparr>x = 1, y = 0, isUp = False\<rparr> = None"
    and "randomizeColors_App ?rnd ?shape 0
      = (0 + length ?shape, zip ?shape (drawColors ?rnd 0 (length ?shape)))"
    by blast+
  then show ?thesis using d by (simp add: cells draws)
qed

text \<open>
  The function of \<open>src/App.tsx\<close> on a shape of one cell that the current colouring (here
  the empty one) does not colour: the drawn colouring colours the cell.
\<close>

theorem randomizeColors_App_colors_uncolored_cell:
  "map_get [] \<lparr>x = 0, y = 0, isUp = True\<rparr> = None
   \<and> map_get (snd (randomizeColors_App (\<lambda>k. 0) [\<lparr>x = 0, y = 0, isUp = True\<rparr>] 0))
         \<lparr>x = 0, y = 0, isUp = True\<rparr> = Some 1"
  by (simp add: map_get_def randomizeColors_App_def randomColor_def)

section \<open>One chunk of the random search\<close>

lemma generateLoop_spec:
  "fst (generateLoop rnd sh cols k (a, p, cs)) = a + k
   \<and> map cAttempt (snd (snd (generateLoop rnd sh cols k (a, p, cs))))
       = map cAttempt cs @ [Suc a..<Suc (a + k)]
   \<and> (list_all scored cs \<longrightarrow> list_all scored (snd (snd (generateLoop rnd sh cols k (a, p, cs)))))
   \<and> (list_all (\<lambda>c. \<exists>q. cColors c = snd (randomizeColors rnd sh cols q)) cs \<longrightarrow>
        list_all (\<lambda>c. \<exists>q. cColors c = snd (randomizeColors rnd sh cols q))
          (snd (snd (generateLoop rnd sh cols k (a, p, cs)))))"
proof (induction k arbitrary: a p cs)
  case 0
  show ?case by simp
next
  case (Suc k)
  obtain p' testColors where r: "randomizeColors rnd sh cols p = (p', testColors)"
    by (cases "randomizeColors rnd sh cols p")
  define cand where "cand = \<lparr>cColors = testColors,
      cConnected = computeConnectedComponents testColors,
      priority = computePriorityScore (computeConnectedComponents testColors),
      cAttempt = a + 1\<rparr>"
  have step: "generateLoop rnd sh cols (Suc k) (a, p, cs)
      = generateLoop rnd sh cols k (a + 1, p', cs @ [cand])"
    by (simp add: r Let_def cand_def)
  have sc: "scored cand" by (simp add: scored_def cand_def computePriorityScore_def)
  have rc: "\<exists>q. cColors cand = snd (randomizeColors rnd sh cols q)"
    using r by (auto simp add: cand_def intro!: exI [of _ p])
  have up: "Suc a # [Suc (Suc a)..<Suc (Suc (a + k))] = [Suc a..<Suc (Suc (a + k))]"
    by (simp add: upt_conv_Cons del: upt_Suc)
  from Suc.IH [of "a + 1" p' "cs @ [cand]"] sc rc up show ?case
    unfolding step by (simp add: cand_def del: upt_Suc)
qed

lemma fold_evaluateCandidate:
  "fold evaluateCandidate cs (e, f)
   = (e + length cs, f @ map candidateResult (filter accepted cs))"
  by (induction cs arbitrary: e f) (simp_all add: evaluateCandidate_def accepted_def)

lemma searchStep_run:
  "searchStep batchSize rnd sh cols False s
   = (Running,
      \<lparr>attempts = attempts s + batchSize,
       evaluated = evaluated s + batchSize,
       found = found s @ map candidateResult
                 (filter accepted (sort_key priority (generatedBatch batchSize rnd sh cols s))),
       drawn = fst (snd (generateLoop rnd sh cols batchSize (attempts s, drawn s, [])))\<rparr>)"
proof -
  obtain a p cands where g: "generateLoop rnd sh cols batchSize (attempts s, drawn s, []) = (a, p, cands)"
    by (cases "generateLoop rnd sh cols batchSize (attempts s, drawn s, [])")
  from generateLoop_spec [of rnd sh cols batchSize "attempts s" "drawn s" "[]"]
  have a: "a = attempts s + batchSize" and len: "length (map cAttempt cands) = batchSize"
    unfolding g by simp_all
  from len have len': "length cands = batchSize" by simp
  show ?thesis
    by (simp add: searchStep_def g generatedBatch_def fold_evaluateCandidate a len')
qed

text \<open>
  Claim C5. A call of \<open>searchStep\<close> that is not cancelled generates \<open>batchSize\<close> candidates
  numbered \<open>attempts + 1, \<dots>, attempts + batchSize\<close> in generation order, each a drawn
  colouring with its component counts and, as priority, the product of the white, black
  and gray counts. It evaluates them in the order of the list sorted ascending by
  priority, and appends to the results, in that order, the entry of every accepted
  candidate; the entry carries the candidate's own attempt number and colouring.
\<close>

theorem searchStep_sorted_by_priority:
  "fst (searchStep batchSize rnd sh cols False s) = Running
   \<and> map cAttempt (generatedBatch batchSize rnd sh cols s)
       = [attempts s + 1..<attempts s + batchSize + 1]
   \<and> (\<forall>cand\<in>set (generatedBatch batchSize rnd sh cols s).
         (\<exists>q. cColors cand = snd (randomizeColors rnd sh cols q))
         \<and> cConnected cand = computeConnectedComponents (cColors cand)
         \<and> priority cand
             = white (computeConnectedComponents (cColors cand))
               * black (computeConnectedComponents (cColors cand))
               * gray (computeConnectedComponents (cColors cand)))
   \<and> sorted (map priority (sort_key priority (generatedBatch batchSize rnd sh cols s)))
   \<and> mset (sort_key priority (generatedBatch batchSize rnd sh cols s))
       = mset (generatedBatch batchSize rnd sh cols s)
   \<and> found (snd (searchStep batchSize rnd sh cols False s))
       = found s @ map candidateResult
           (filter accepted (sort_key priority (generatedBatch batchSize rnd sh cols s)))
   \<and> (\<forall>cand. attempt (candidateResult cand) = cAttempt cand
         \<and> colors (candidateResult cand) = cColors cand)
   \<and> attempts (snd (searchStep batchSize rnd sh cols False s)) = attempts s + batchSize
   \<and> evaluated (snd (searchStep batchSize rnd sh cols False s)) = evaluated s + batchSize"
proof -
  let ?b = "generatedBatch batchSize rnd sh cols s"
  from generateLoop_spec [of rnd sh cols batchSize "attempts s" "drawn s" "[]"]
  have att: "map cAttempt ?b = [attempts s + 1..<attempts s + batchSize + 1]"
    and sc: "list_all scored ?b"
    and rc: "list_all (\<lambda>c. \<exists>q. cColors c = snd (randomizeColors rnd sh cols q)) ?b"
    by (simp_all add: generatedBatch_def)
  have each: "\<forall>cand\<in>set ?b.
         (\<exists>q. cColors cand = snd (randomizeColors rnd sh cols q))
         \<and> cConnected cand = computeConnectedComponents (cColors cand)
         \<and> priority cand
             = white (computeConnectedComponents (cColors cand))
               * black (computeConnectedComponents (cColors cand))
               * gray (computeConnectedComponents (cColors cand))"
    using sc rc by (auto simp add: list_all_iff scored_def)
  have res: "\<forall>cand. attempt (candidateResult cand) = cAttempt cand
         \<and> colors (candidateResult cand) = cColors cand"
    by (simp add: candidateResult_def)
  have srt: "sorted (map priority (sort_key priority ?b))" by simp
  have ms: "mset (sort_key priority ?b) = mset ?b" by simp
  from att each srt ms res show ?thesis
    by (simp only: searchStep_run fst_conv snd_conv RandomSession.simps) simp
qed

theorem searchStep_sorted_by_priority_witness:
  "map attempt (found (snd (searchStep 2
       (\<lambda>k. [2 / 3, 1 / 3, 0, 0, 1 / 3, 0] ! k)
       [\<lparr>x = 0, y = 0, isUp = True\<rparr>, \<lparr>x = 1, y = 0, isUp = False\<rparr>,
        \<lparr>x = 2, y = 0, isUp = True\<rparr>]
       [(\<lparr>x = 0, y = 0, isUp = True\<rparr>, 1), (\<lparr>x = 1, y = 0, isUp = False\<rparr>, 1),
        (\<lparr>x = 2, y = 0, isUp = True\<rparr>, 1)]
       False \<lparr>attempts = 0, evaluated = 0, found = [], drawn = 0\<rparr>))) = [2, 1]
   \<and> map (\<lambda>c. (cAttempt c, map snd (cColors c), priority c)) (generatedBatch 2
       (\<lambda>k. [2 / 3, 1 / 3, 0, 0, 1 / 3, 0] ! k)
       [\<lparr>x = 0, y = 0, isUp = True\<rparr>, \<lparr>x = 1, y = 0, isUp = False\<rparr>,
        \<lparr>x = 2, y = 0, isUp = True\<rparr>]
       [(\<lparr>x = 0, y = 0, isUp = True\<rparr>, 1), (\<lparr>x = 1, y = 0, isUp = False\<rparr>, 1),
        (\<lparr>x = 2, y = 0, isUp = True\<rparr>, 1)]
       \<lparr>attempts = 0, evaluated = 0, found = [], drawn = 0\<rparr>)
     = [(1, [3, 2, 1], 1), (2, [1, 2, 1], 0)]"
proof -
  let ?rnd = "\<lambda>k. [2 / 3, 1 / 3, 0, 0, 1 / 3, 0 :: real] ! k"
  let ?shape = "[\<lparr>x = 0, y = 0, isUp = True\<rparr>, \<lparr>x = 1, y = 0, isUp = False\<rparr>,
        \<lparr>x = 2, y = 0, isUp = True\<rparr>]"
  let ?cur = "[(\<lparr>x = 0, y = 0, isUp = True\<rparr>, 1 :: int), (\<lparr>x = 1, y = 0, isUp = False\<rparr>, 1),
        (\<lparr>x = 2, y = 0, isUp = True\<rparr>, 1)]"
  let ?s = "\<lparr>attempts = 0, evaluated = 0, found = [], drawn = 0\<rparr>"
  have b: "map (\<lambda>c. (cAttempt c, map snd (cColors c), priority c)) (generatedBatch 2 ?rnd ?shape ?cur ?s)
     = [(1, [3, 2, 1], 1), (2, [1, 2, 1], 0)]"
    by code_simp
  have srt: "map cAttempt (filter accepted (sort_key priority (generatedBatch 2 ?rnd ?shape ?cur ?s)))
     = [2, 1]"
    by code_simp
  have conv: "map attempt (map candidateResult cs) = map cAttempt cs" for cs
    by (simp add: candidateResult_def)
  from searchStep_sorted_by_priority [of 2 ?rnd ?shape ?cur ?s]
  have "found (snd (searchStep 2 ?rnd ?shape ?cur False ?s))
      = found ?s @ map candidateResult
          (filter accepted (sort_key priority (generatedBatch 2 ?rnd ?shape ?cur ?s)))"
    by blast
  then have "map attempt (found (snd (searchStep 2 ?rnd ?shape ?cur False ?s)))
      = map cAttempt (filter accepted (sort_key priority (generatedBatch 2 ?rnd ?shape ?cur ?s)))"
    by (simp only: conv RandomSession.simps append_Nil)
  then have "map attempt (found (snd (searchStep 2 ?rnd ?shape ?cur False ?s))) = [2, 1]"
    by (simp only: srt)
  then show ?thesis using b by (rule conjI)
qed

section \<open>The component count\<close>

lemma neighbors_areAdjacent: "b \<in> set (neighbors a) \<longleftrightarrow> areAdjacent a b"
proof (cases a, cases b)
  fix ax ay au bx by' bu
  assume a: "a = \<lparr>x = ax, y = ay, isUp = au\<rparr>" and b: "b = \<lparr>x = bx, y = by', isUp = bu\<rparr>"
  show ?thesis
  proof (cases au)
    case True
    then show ?thesis unfolding a b
      by (simp add: neighbors_def areAdjacent_def Let_def) linarith
  next
    case False
    then show ?thesis unfolding a b
      by (simp add: neighbors_def areAdjacent_def Let_def) linarith
  qed
qed

lemma areAdjacent_commute: "areAdjacent a b \<Longrightarrow> areAdjacent b a"
  by (auto simp add: areAdjacent_def Let_def split: if_splits)

lemma sym_sameColorEdges: "sym (sameColorEdges colorMap t)"
  unfolding sym_def sameColorEdges_def by (blast intro: areAdjacent_commute)

lemma component_self: "k \<in> component colorMap t k"
  by (simp add: component_def)

lemma component_color:
  assumes "map_get colorMap k = Some t" "b \<in> component colorMap t k"
  shows "map_get colorMap b = Some t"
proof -
  from assms(2) have "(k, b) \<in> (sameColorEdges colorMap t)\<^sup>*" by (simp add: component_def)
  then show ?thesis using assms(1)
    by (induction rule: rtrancl_induct) (auto simp add: sameColorEdges_def)
qed

lemma component_eq:
  assumes "b \<in> component colorMap t k"
  shows "component colorMap t b = component colorMap t k"
proof -
  from assms have kb: "(k, b) \<in> (sameColorEdges colorMap t)\<^sup>*" by (simp add: component_def)
  then have bk: "(b, k) \<in> (sameColorEdges colorMap t)\<^sup>*"
    using sym_sameColorEdges [of colorMap t] by (meson sym_rtrancl symD)
  show ?thesis
    unfolding component_def using kb bk by (auto intro: rtrancl_trans)
qed

lemma component_step:
  "a \<in> component colorMap t k \<Longrightarrow> (a, b) \<in> sameColorEdges colorMap t \<Longrightarrow> b \<in> component colorMap t k"
  by (auto simp add: component_def intro: rtrancl_into_rtrancl)

lemma set_pushNeighbors:
  "set (pushNeighbors colorMap t visited ns stack)
   = {n \<in> set ns. n \<notin> visited \<and> map_get colorMap n = Some t} \<union> set stack"
  unfolding pushNeighbors_def by (induction ns arbitrary: stack) auto

lemma dfsLoop_mono: "visited \<subseteq> dfsLoop colorMap t stack visited"
proof (induction colorMap t stack visited rule: dfsLoop.induct)
  case (1 colorMap t visited)
  show ?case by simp
next
  case (2 colorMap t key stack visited)
  then show ?case by (cases "key \<in> visited"; cases "map_get colorMap key = Some t") auto
qed

lemma dfsLoop_stack_visited:
  "a \<in> set stack \<Longrightarrow> map_get colorMap a = Some t \<Longrightarrow> a \<in> dfsLoop colorMap t stack visited"
proof (induction colorMap t stack visited rule: dfsLoop.induct)
  case (1 colorMap t visited)
  then show ?case by simp
next
  case (2 colorMap t key stack visited)
  show ?case
  proof (cases "key \<in> visited")
    case True
    show ?thesis
    proof (cases "a = key")
      case ak: True
      with True dfsLoop_mono [of visited colorMap t stack] show ?thesis by auto
    next
      case False
      with 2(1) [OF True] 2(4,5) True show ?thesis by simp
    qed
  next
    case nv: False
    show ?thesis
    proof (cases "map_get colorMap key = Some t")
      case False
      with 2(4,5) have "a \<in> set stack" by auto
      with 2(2) [OF nv False] 2(5) nv False show ?thesis by simp
    next
      case True
      let ?st = "pushNeighbors colorMap t (insert key visited) (neighbors key) stack"
      have eq: "dfsLoop colorMap t (key # stack) visited = dfsLoop colorMap t ?st (insert key visited)"
        using nv True by simp
      show ?thesis
      proof (cases "a = key")
        case ak: True
        with dfsLoop_mono [of "insert key visited" colorMap t ?st] show ?thesis
          unfolding eq by auto
      next
        case False
        with 2(4) have "a \<in> set ?st" by (simp add: set_pushNeighbors)
        with 2(3) [OF nv _ _ 2(5)] True show ?thesis unfolding eq by simp
      qed
    qed
  qed
qed

lemma dfsLoop_closed:
  "a \<in> dfsLoop colorMap t stack visited \<Longrightarrow> a \<notin> visited \<Longrightarrow>
   b \<in> set (neighbors a) \<Longrightarrow> map_get colorMap b = Some t \<Longrightarrow>
   b \<in> dfsLoop colorMap t stack visited"
proof (induction colorMap t stack visited rule: dfsLoop.induct)
  case (1 colorMap t visited)
  then show ?case by simp
next
  case (2 colorMap t key stack visited)
  show ?case
  proof (cases "key \<in> visited")
    case True
    with 2(1) [OF True] 2(4-7) show ?thesis by simp
  next
    case nv: False
    show ?thesis
    proof (cases "map_get colorMap key = Some t")
      case False
      with 2(2) [OF nv False] 2(4-7) nv show ?thesis by simp
    next
      case True
      let ?st = "pushNeighbors colorMap t (insert key visited) (neighbors key) stack"
      have eq: "dfsLoop colorMap t (key # stack) visited = dfsLoop colorMap t ?st (insert key visited)"
        using nv True by simp
      show ?thesis
      proof (cases "a = key")
        case ak: True
        show ?thesis
        proof (cases "b \<in> insert key visited")
          case True
          with dfsLoop_mono [of "insert key visited" colorMap t ?st] show ?thesis
            unfolding eq by auto
        next
          case False
          with 2(6,7) ak have "b \<in> set ?st" by (simp add: set_pushNeighbors)
          from dfsLoop_stack_visited [OF this 2(7)] show ?thesis unfolding eq .
        qed
      next
        case False
        with 2(4,5) have "a \<in> dfsLoop colorMap t ?st (insert key visited)" "a \<notin> insert key visited"
          unfolding eq by simp_all
        from 2(3) [OF nv _ this 2(6,7)] True show ?thesis unfolding eq by simp
      qed
    qed
  qed
qed

lemma dfsLoop_sound:
  "b \<in> dfsLoop colorMap t stack visited \<Longrightarrow> b \<notin> visited \<Longrightarrow>
   \<exists>a\<in>set stack. map_get colorMap a = Some t \<and> (a, b) \<in> (sameColorEdges colorMap t)\<^sup>*"
proof (induction colorMap t stack visited rule: dfsLoop.induct)
  case (1 colorMap t visited)
  then show ?case by simp
next
  case (2 colorMap t key stack visited)
  show ?case
  proof (cases "key \<in> visited")
    case True
    with 2(1) [OF True] 2(4,5) show ?thesis by auto
  next
    case nv: False
    show ?thesis
    proof (cases "map_get colorMap key = Some t")
      case False
      with 2(2) [OF nv False] 2(4,5) nv show ?thesis by auto
    next
      case True
      let ?st = "pushNeighbors colorMap t (insert key visited) (neighbors key) stack"
      have eq: "dfsLoop colorMap t (key # stack) visited = dfsLoop colorMap t ?st (insert key visited)"
        using nv True by simp
      show ?thesis
      proof (cases "b = key")
        case bk: True
        with True show ?thesis by auto
      next
        case False
        with 2(4,5) have "b \<in> dfsLoop colorMap t ?st (insert key visited)" "b \<notin> insert key visited"
          unfolding eq by simp_all
        from 2(3) [OF nv _ this] True obtain a
          where a: "a \<in> set ?st" "map_get colorMap a = Some t" "(a, b) \<in> (sameColorEdges colorMap t)\<^sup>*"
          by auto
        show ?thesis
        proof (cases "a \<in> set stack")
          case True
          with a show ?thesis by auto
        next
          case False
          with a(1) have "a \<in> set (neighbors key)" by (auto simp add: set_pushNeighbors)
          then have e: "(key, a) \<in> sameColorEdges colorMap t"
            using True a(2) by (simp add: sameColorEdges_def neighbors_areAdjacent)
          from e a(3) have "(key, b) \<in> (sameColorEdges colorMap t)\<^sup>*"
            by (rule converse_rtrancl_into_rtrancl)
          with True show ?thesis by auto
        qed
      qed
    qed
  qed
qed

lemma dfs_component:
  assumes col: "map_get colorMap key = Some t" and cl: "closedUnder colorMap visited"
  shows "dfs colorMap key t visited = visited \<union> component colorMap t key"
proof (intro equalityI subsetI)
  fix b
  assume b: "b \<in> dfs colorMap key t visited"
  show "b \<in> visited \<union> component colorMap t key"
  proof (cases "b \<in> visited")
    case False
    with b dfsLoop_sound [of b colorMap t "[key]" visited]
    show ?thesis by (auto simp add: dfs_def component_def)
  qed simp
next
  fix b
  assume "b \<in> visited \<union> component colorMap t key"
  then show "b \<in> dfs colorMap key t visited"
  proof
    assume "b \<in> visited"
    with dfsLoop_mono show ?thesis unfolding dfs_def by blast
  next
    assume "b \<in> component colorMap t key"
    then have "(key, b) \<in> (sameColorEdges colorMap t)\<^sup>*" by (simp add: component_def)
    then show ?thesis
    proof (induction rule: rtrancl_induct)
      case base
      from dfsLoop_stack_visited [of key "[key]" colorMap t visited] col
      show ?case by (simp add: dfs_def)
    next
      case (step a b)
      from step(2) have ab: "b \<in> set (neighbors a)" and cb: "map_get colorMap b = Some t"
        by (simp_all add: sameColorEdges_def neighbors_areAdjacent)
      show ?case
      proof (cases "a \<in> visited")
        case True
        with cl step(2) have "b \<in> visited" unfolding closedUnder_def by blast
        with dfsLoop_mono show ?thesis unfolding dfs_def by blast
      next
        case False
        from dfsLoop_closed [OF step(3) [unfolded dfs_def] False ab cb]
        show ?thesis by (simp add: dfs_def)
      qed
    qed
  qed
qed

lemma closedUnder_component:
  assumes "closedUnder colorMap visited" and col: "map_get colorMap key = Some t"
  shows "closedUnder colorMap (visited \<union> component colorMap t key)"
  unfolding closedUnder_def
proof (intro allI impI)
  fix t' a b
  assume a: "a \<in> visited \<union> component colorMap t key"
    and e: "(a, b) \<in> sameColorEdges colorMap t'"
  show "b \<in> visited \<union> component colorMap t key"
  proof (cases "a \<in> visited")
    case True
    with assms(1) e show ?thesis unfolding closedUnder_def by blast
  next
    case False
    with a have ac: "a \<in> component colorMap t key" by simp
    from component_color [OF col ac] e have "t' = t" by (simp add: sameColorEdges_def)
    with ac e show ?thesis by (auto intro: component_step)
  qed
qed

lemma closedUnder_empty: "closedUnder colorMap {}"
  by (simp add: closedUnder_def)

lemma finite_componentsSeen [simp]: "finite (componentsSeen colorMap pre t)"
proof -
  have "{k. (k, t) \<in> set pre} \<subseteq> fst ` set pre" by force
  then have "finite {k. (k, t) \<in> set pre}" by (rule finite_subset) simp
  then show ?thesis by (simp add: componentsSeen_def)
qed

lemma componentsSeen_snoc:
  "componentsSeen colorMap (pre @ [(key, c)]) t
   = (if c = t then insert (component colorMap t key) (componentsSeen colorMap pre t)
      else componentsSeen colorMap pre t)"
  by (auto simp add: componentsSeen_def)

lemma cellsSeen_snoc:
  "cellsSeen colorMap (pre @ [(key, c)])
   = (if c = 0 then cellsSeen colorMap pre else cellsSeen colorMap pre \<union> component colorMap c key)"
  by (auto simp add: cellsSeen_def)

lemma cellsSeen_iff:
  "b \<in> cellsSeen colorMap pre \<longleftrightarrow> (\<exists>k c. (k, c) \<in> set pre \<and> c \<noteq> 0 \<and> b \<in> component colorMap c k)"
  by (auto simp add: cellsSeen_def)

lemma countStep_inv:
  assumes inv: "countInv colorMap pre s"
    and col: "map_get colorMap key = Some c"
    and sub: "\<forall>(k, t)\<in>set pre. map_get colorMap k = Some t"
  shows "countInv colorMap (pre @ [(key, c)]) (countStep colorMap (key, c) s)"
proof -
  obtain visited result where s: "s = (visited, result)" by (cases s)
  from inv have vis: "visited = cellsSeen colorMap pre"
    and cl: "closedUnder colorMap visited"
    and w: "white result = card (componentsSeen colorMap pre 1)"
    and b: "black result = card (componentsSeen colorMap pre 2)"
    and g: "gray result = card (componentsSeen colorMap pre 3)"
    by (auto simp add: countInv_def s)
  show ?thesis
  proof (cases "c = 0")
    case True
    with vis cl w b g show ?thesis
      by (simp add: countInv_def countStep_def s componentsSeen_snoc cellsSeen_snoc)
  next
    case c0: False
    have un: "cellsSeen colorMap (pre @ [(key, c)]) = visited \<union> component colorMap c key"
      using c0 by (simp add: vis cellsSeen_snoc)
    show ?thesis
    proof (cases "key \<in> visited")
      case True
      then obtain k' c' where k': "(k', c') \<in> set pre" "c' \<noteq> 0" "key \<in> component colorMap c' k'"
        by (auto simp add: vis cellsSeen_iff)
      from sub k'(1) have ck': "map_get colorMap k' = Some c'" by auto
      from component_color [OF ck' k'(3)] col have cc: "c' = c" by simp
      from component_eq [OF k'(3)] have same: "component colorMap c key = component colorMap c k'"
        by (simp add: cc)
      have "component colorMap c key \<subseteq> visited"
        unfolding same vis using k'(1,2) cc by (fastforce simp add: cellsSeen_iff)
      then have un': "visited \<union> component colorMap c key = visited" by auto
      have seen: "component colorMap c key \<in> componentsSeen colorMap pre c"
        unfolding same componentsSeen_def using k'(1) cc by auto
      then have ins: "insert (component colorMap c key) (componentsSeen colorMap pre c)
          = componentsSeen colorMap pre c" by auto
      have st: "countStep colorMap (key, c) s = s"
        using True by (simp add: countStep_def s)
      show ?thesis
        unfolding st countInv_def using cl w b g ins
        by (auto simp add: s un un' componentsSeen_snoc)
    next
      case False
      have new: "component colorMap c key \<notin> componentsSeen colorMap pre t" for t
      proof
        assume "component colorMap c key \<in> componentsSeen colorMap pre t"
        then obtain k' where k': "(k', t) \<in> set pre" "component colorMap c key = component colorMap t k'"
          by (auto simp add: componentsSeen_def)
        from sub k'(1) have ck': "map_get colorMap k' = Some t" by auto
        from component_self [of key colorMap c] k'(2) have mem: "key \<in> component colorMap t k'" by simp
        from component_color [OF ck' mem] col have "t = c" by simp
        with c0 k'(1) mem have "key \<in> visited" by (auto simp add: vis cellsSeen_iff)
        with False show False by simp
      qed
      have card_new: "card (insert (component colorMap c key) (componentsSeen colorMap pre t))
          = Suc (card (componentsSeen colorMap pre t))" for t
        using new [of t] by simp
      have d: "dfs colorMap key c visited = visited \<union> component colorMap c key"
        by (rule dfs_component [OF col cl])
      have cl': "closedUnder colorMap (visited \<union> component colorMap c key)"
        by (rule closedUnder_component [OF cl col])
      have st: "countStep colorMap (key, c) s
          = (visited \<union> component colorMap c key,
             if c = 1 then result\<lparr>white := white result + 1\<rparr>
             else if c = 2 then result\<lparr>black := black result + 1\<rparr>
             else if c = 3 then result\<lparr>gray := gray result + 1\<rparr>
             else result)"
        using False c0 by (simp add: countStep_def s d)
      show ?thesis
        unfolding st countInv_def
        using cl' w b g card_new [of 1] card_new [of 2] card_new [of 3]
        by (auto simp add: un componentsSeen_snoc)
    qed
  qed
qed

lemma fold_countStep_inv:
  assumes "countInv colorMap pre s"
    and "\<forall>(k, t)\<in>set (pre @ rest). map_get colorMap k = Some t"
  shows "countInv colorMap (pre @ rest) (fold (countStep colorMap) rest s)"
  using assms
proof (induction rest arbitrary: pre s)
  case Nil
  then show ?case by simp
next
  case (Cons e rest)
  obtain key c where e: "e = (key, c)" by (cases e)
  from Cons.prems(2) have col: "map_get colorMap key = Some c"
    and sub: "\<forall>(k, t)\<in>set pre. map_get colorMap k = Some t"
    by (auto simp add: e)
  from countStep_inv [OF Cons.prems(1) col sub]
  have "countInv colorMap (pre @ [(key, c)]) (countStep colorMap (key, c) s)" .
  from Cons.IH [OF this] Cons.prems(2) show ?case by (simp add: e)
qed

lemma map_get_distinct:
  "distinct (map fst colorMap) \<Longrightarrow> (k, t) \<in> set colorMap \<longleftrightarrow> map_get colorMap k = Some t"
  by (auto simp add: map_get_def dest: map_of_SomeD)

lemma computeConnectedComponents_counts:
  assumes "distinct (map fst colorMap)"
  shows "computeConnectedComponents colorMap
    = \<lparr>white = componentCount colorMap 1, black = componentCount colorMap 2,
       gray = componentCount colorMap 3\<rparr>"
proof -
  let ?s = "fold (countStep colorMap) colorMap ({}, \<lparr>white = 0, black = 0, gray = 0\<rparr>)"
  have init: "countInv colorMap [] ({}, \<lparr>white = 0, black = 0, gray = 0\<rparr>)"
    by (simp add: countInv_def cellsSeen_def componentsSeen_def closedUnder_empty)
  have "\<forall>(k, t)\<in>set ([] @ colorMap). map_get colorMap k = Some t"
    using map_get_distinct [OF assms] by auto
  from fold_countStep_inv [OF init this] have inv: "countInv colorMap colorMap ?s" by simp
  have seen: "componentsSeen colorMap colorMap t = component colorMap t ` {k. map_get colorMap k = Some t}" for t
    by (simp add: componentsSeen_def map_get_distinct [OF assms])
  from inv have "white (snd ?s) = componentCount colorMap 1"
    "black (snd ?s) = componentCount colorMap 2" "gray (snd ?s) = componentCount colorMap 3"
    by (auto simp add: countInv_def seen componentCount_def)
  then show ?thesis by (simp add: computeConnectedComponents_def)
qed

lemma map_get_perm:
  assumes "distinct (map fst colorMap)" "mset colorMap' = mset colorMap"
  shows "map_get colorMap' = map_get colorMap"
proof -
  from assms(2) have "mset (map fst colorMap') = mset (map fst colorMap)" by simp
  with assms(1) have d': "distinct (map fst colorMap')" by (metis mset_eq_imp_distinct_iff)
  from assms(2) have "set colorMap' = set colorMap" by (rule mset_eq_setD)
  with map_of_inject_set [OF d' assms(1)] have "map_of colorMap' = map_of colorMap" by simp
  then show ?thesis by (simp add: map_get_def fun_eq_iff)
qed

text \<open>
  Claim C9. For a colouring (a map, so with each cell once), the counts that
  \<open>computeConnectedComponents\<close> returns are the same for every order of its entries: they
  are, for each of the three colours, the number of connected components of the cells of
  that colour.
\<close>

theorem computeConnectedComponents_order_independent:
  "distinct (map fst colorMap) \<Longrightarrow> mset colorMap' = mset colorMap \<Longrightarrow>
   computeConnectedComponents colorMap' = computeConnectedComponents colorMap
   \<and> computeConnectedComponents colorMap
       = \<lparr>white = componentCount colorMap 1, black = componentCount colorMap 2,
          gray = componentCount colorMap 3\<rparr>"
proof -
  assume d: "distinct (map fst colorMap)" and p: "mset colorMap' = mset colorMap"
  from p have "mset (map fst colorMap') = mset (map fst colorMap)" by simp
  with d have d': "distinct (map fst colorMap')" by (metis mset_eq_imp_distinct_iff)
  have g: "map_get colorMap' = map_get colorMap" by (rule map_get_perm [OF d p])
  have "componentCount colorMap' t = componentCount colorMap t" for t
    by (simp add: componentCount_def component_def sameColorEdges_def g)
  then show ?thesis
    by (simp add: computeConnectedComponents_counts [OF d] computeConnectedComponents_counts [OF d'])
qed

theorem computeConnectedComponents_order_independent_witness:
  "computeConnectedComponents
     [(\<lparr>x = 0, y = 0, isUp = True\<rparr>, 1), (\<lparr>x = 1, y = 0, isUp = False\<rparr>, 1),
      (\<lparr>x = 5, y = 0, isUp = False\<rparr>, 1), (\<lparr>x = 2, y = 0, isUp = True\<rparr>, 2)]
     = \<lparr>white = 2, black = 1, gray = 0\<rparr>
   \<and> computeConnectedComponents
     [(\<lparr>x = 2, y = 0, isUp = True\<rparr>, 2), (\<lparr>x = 5, y = 0, isUp = False\<rparr>, 1),
      (\<lparr>x = 1, y = 0, isUp = False\<rparr>, 1), (\<lparr>x = 0, y = 0, isUp = True\<rparr>, 1)]
     = computeConnectedComponents
     [(\<lparr>x = 0, y = 0, isUp = True\<rparr>, 1), (\<lparr>x = 1, y = 0, isUp = False\<rparr>, 1),
      (\<lparr>x = 5, y = 0, isUp = False\<rparr>, 1), (\<lparr>x = 2, y = 0, isUp = True\<rparr>, 2)]"
proof -
  let ?cm = "[(\<lparr>x = 0, y = 0, isUp = True\<rparr>, 1 :: int), (\<lparr>x = 1, y = 0, isUp = False\<rparr>, 1),
      (\<lparr>x = 5, y = 0, isUp = False\<rparr>, 1), (\<lparr>x = 2, y = 0, isUp = True\<rparr>, 2)]"
  let ?cm' = "[(\<lparr>x = 2, y = 0, isUp = True\<rparr>, 2 :: int), (\<lparr>x = 5, y = 0, isUp = False\<rparr>, 1),
      (\<lparr>x = 1, y = 0, isUp = False\<rparr>, 1), (\<lparr>x = 0, y = 0, isUp = True\<rparr>, 1)]"
  have d: "distinct (map fst ?cm)" by simp
  have p: "mset ?cm' = mset ?cm" by (simp add: add_mset_commute)
  have v: "computeConnectedComponents ?cm = \<lparr>white = 2, black = 1, gray = 0\<rparr>" by code_simp
  from computeConnectedComponents_order_independent [OF d p] have "computeConnectedComponents ?cm' = computeConnectedComponents ?cm" by blast
  with v show ?thesis by (rule conjI)
qed

section \<open>The determinant writes to its copy only\<close>

lemma working_refs:
  assumes "working L pm store m"
  shows "\<exists>refs. L \<le> pm \<and> pm < length store \<and> store ! pm = RefArr refs \<and> refsAt store pm = refs
    \<and> distinct refs \<and> length refs = length m
    \<and> (\<forall>k<length m. L \<le> refs ! k \<and> refs ! k < length store \<and> refs ! k \<noteq> pm
           \<and> store ! (refs ! k) = NumArr (m ! k))"
  using assms unfolding working_def refsAt_def by auto

lemma working_readCell:
  "working L pm store m \<Longrightarrow> k < length m \<Longrightarrow> readCell store pm k j = m ! k ! j"
  by (drule working_refs) (auto simp add: readCell_def numsAt_def)

lemma working_matAt: "working L pm store m \<Longrightarrow> matAt store pm = m"
  by (drule working_refs) (auto simp add: matAt_def numsAt_def intro!: nth_equalityI)

lemma working_writeCell:
  assumes w: "working L pm store m" and k: "k < length m"
  shows "working L pm (writeCell store pm k j v) (mat_set m k j v)"
    and "take L (writeCell store pm k j v) = take L store"
proof -
  from working_refs [OF w] obtain refs where r: "L \<le> pm" "pm < length store"
    "store ! pm = RefArr refs" "refsAt store pm = refs" "distinct refs" "length refs = length m"
    and rows': "\<forall>k<length m. L \<le> refs ! k \<and> refs ! k < length store \<and> refs ! k \<noteq> pm
        \<and> store ! (refs ! k) = NumArr (m ! k)"
    by blast
  note rows = rows' [rule_format]
  let ?p = "refs ! k"
  from rows [OF k] have p: "L \<le> ?p" "?p < length store" "?p \<noteq> pm" "store ! ?p = NumArr (m ! k)"
    by simp_all
  have wc: "writeCell store pm k j v = store[?p := NumArr ((m ! k)[j := v])]"
    using p by (simp add: writeCell_def r(4) numsAt_def)
  show "take L (writeCell store pm k j v) = take L store"
    unfolding wc using p(1) by simp
  show "working L pm (writeCell store pm k j v) (mat_set m k j v)"
    unfolding working_def wc
  proof (intro conjI exI [of _ refs] allI impI)
    fix k' assume k': "k' < length (mat_set m k j v)"
    then have k'm: "k' < length m" by (simp add: mat_set_def)
    from rows [OF k'm] show "L \<le> refs ! k'" "refs ! k' < length (store[?p := NumArr ((m ! k)[j := v])])"
      "refs ! k' \<noteq> pm" by simp_all
    show "store[?p := NumArr ((m ! k)[j := v])] ! (refs ! k') = NumArr (mat_set m k j v ! k')"
    proof (cases "k' = k")
      case True
      with p k show ?thesis by (simp add: mat_set_def)
    next
      case False
      with r(5,6) k k'm have "refs ! k' \<noteq> refs ! k" by (simp add: nth_eq_iff_index_eq)
      with rows [OF k'm] False k'm show ?thesis by (simp add: mat_set_def)
    qed
  qed (use r p in \<open>simp_all add: mat_set_def\<close>)
qed

lemma working_swapRows:
  assumes w: "working L pm store m" and i: "i < length m" and r: "r < length m"
  shows "working L pm (swapRows_h store pm i r) (swapRows m i r)"
    and "take L (swapRows_h store pm i r) = take L store"
proof -
  from working_refs [OF w] obtain refs where f: "L \<le> pm" "pm < length store"
    "store ! pm = RefArr refs" "refsAt store pm = refs" "distinct refs" "length refs = length m"
    and rows': "\<forall>k<length m. L \<le> refs ! k \<and> refs ! k < length store \<and> refs ! k \<noteq> pm
        \<and> store ! (refs ! k) = NumArr (m ! k)"
    by blast
  note rows = rows' [rule_format]
  have sw: "swapRows_h store pm i r = store[pm := RefArr (swapRows refs i r)]"
    by (simp add: swapRows_h_def f(4))
  show "take L (swapRows_h store pm i r) = take L store"
    unfolding sw using f(1) by simp
  have nth_sw: "swapRows xs i r ! k = (if k = r then xs ! i else if k = i then xs ! r else xs ! k)"
    if "length xs = length m" "k < length m" for xs :: "'b list" and k
    using that i r by (simp add: swapRows_def nth_list_update)
  have dist: "distinct (swapRows refs i r)"
    unfolding distinct_conv_nth
  proof (intro allI impI)
    fix a b assume "a < length (swapRows refs i r)" "b < length (swapRows refs i r)" "a \<noteq> b"
    then have ab: "a < length m" "b < length m" by (simp_all add: swapRows_def f(6))
    with \<open>a \<noteq> b\<close> i r f(5,6) show "swapRows refs i r ! a \<noteq> swapRows refs i r ! b"
      by (auto simp add: nth_sw nth_eq_iff_index_eq)
  qed
  show "working L pm (swapRows_h store pm i r) (swapRows m i r)"
    unfolding working_def sw
  proof (intro conjI exI [of _ "swapRows refs i r"] allI impI)
    fix k assume "k < length (swapRows m i r)"
    then have k: "k < length m" by (simp add: swapRows_def)
    have idx: "swapRows refs i r ! k = refs ! (if k = r then i else if k = i then r else k)"
      using k f(6) by (simp add: nth_sw)
    have idx': "swapRows m i r ! k = m ! (if k = r then i else if k = i then r else k)"
      using k by (simp add: nth_sw)
    let ?k' = "if k = r then i else if k = i then r else k"
    have k': "?k' < length m" using k i r by simp
    from rows [OF k'] show "L \<le> swapRows refs i r ! k"
      "swapRows refs i r ! k < length (store[pm := RefArr (swapRows refs i r)])"
      "swapRows refs i r ! k \<noteq> pm"
      "store[pm := RefArr (swapRows refs i r)] ! (swapRows refs i r ! k) = NumArr (swapRows m i r ! k)"
      unfolding idx idx' by simp_all
  qed (use f dist in \<open>simp_all add: swapRows_def\<close>)
qed

lemma length_mat_set [simp]: "length (mat_set m k j v) = length m"
  by (simp add: mat_set_def)

lemma length_swapRows [simp]: "length (swapRows m i r) = length m"
  by (simp add: swapRows_def)

lemma working_findMaxRow_fold:
  assumes w: "working L pm store m"
  shows "r < length m \<Longrightarrow> b \<le> length m \<Longrightarrow>
    fold (\<lambda>k maxRow. if \<bar>readCell store pm k i\<bar> > \<bar>readCell store pm maxRow i\<bar> then k else maxRow)
      [a..<b] r
    = fold (\<lambda>k maxRow. if \<bar>m ! k ! i\<bar> > \<bar>m ! maxRow ! i\<bar> then k else maxRow) [a..<b] r
    \<and> fold (\<lambda>k maxRow. if \<bar>m ! k ! i\<bar> > \<bar>m ! maxRow ! i\<bar> then k else maxRow) [a..<b] r
        < length m"
proof (induction b)
  case 0
  then show ?case by simp
next
  case (Suc b)
  show ?case
  proof (cases "a \<le> b")
    case True
    let ?r = "fold (\<lambda>k maxRow. if \<bar>m ! k ! i\<bar> > \<bar>m ! maxRow ! i\<bar> then k else maxRow) [a..<b] r"
    from Suc have ih: "fold (\<lambda>k maxRow. if \<bar>readCell store pm k i\<bar> > \<bar>readCell store pm maxRow i\<bar>
        then k else maxRow) [a..<b] r = ?r" and lt: "?r < length m"
      by simp_all
    from Suc.prems have b: "b < length m" by simp
    from True ih lt b show ?thesis
      by (simp add: working_readCell [OF w])
  next
    case False
    with Suc.prems show ?thesis by simp
  qed
qed

lemma working_findMaxRow:
  assumes "working L pm store m" "i < length m"
  shows "findMaxRow_h store pm i (length m) = findMaxRow m i (length m)"
  using working_findMaxRow_fold [OF assms(1), of i "length m" i "Suc i"] assms(2)
  by (simp add: findMaxRow_h_def findMaxRow_def)

lemma working_eliminateRow_fold:
  assumes k: "k < length m0" and i: "i < length m0"
  shows "working L pm store m \<Longrightarrow> length m = length m0 \<Longrightarrow>
    working L pm
      (fold (\<lambda>j store'. writeCell store' pm k j
                (readCell store' pm k j - factor * readCell store' pm i j)) js store)
      (fold (\<lambda>j m'. mat_set m' k j (m' ! k ! j - factor * m' ! i ! j)) js m)
    \<and> take L (fold (\<lambda>j store'. writeCell store' pm k j
                (readCell store' pm k j - factor * readCell store' pm i j)) js store)
        = take L store"
proof (induction js arbitrary: store m)
  case Nil
  then show ?case by simp
next
  case (Cons j js)
  from Cons.prems k i have km: "k < length m" and im: "i < length m" by simp_all
  let ?v = "m ! k ! j - factor * m ! i ! j"
  have rd: "readCell store pm k j - factor * readCell store pm i j = ?v"
    by (simp add: working_readCell [OF Cons.prems(1)] km im)
  from working_writeCell [OF Cons.prems(1) km, of j ?v]
  have w': "working L pm (writeCell store pm k j ?v) (mat_set m k j ?v)"
    and t': "take L (writeCell store pm k j ?v) = take L store"
    by simp_all
  from Cons.IH [OF w'] Cons.prems(2) t' show ?case by (simp add: rd)
qed

lemma working_eliminateRow:
  assumes w: "working L pm store m" and k: "k < length m" and i: "i < length m"
  shows "working L pm (eliminateRow_h store pm i k n) (eliminateRow m i k n)"
    and "take L (eliminateRow_h store pm i k n) = take L store"
  using working_eliminateRow_fold [OF k i w refl, of "m ! k ! i / m ! i ! i" "[i..<n]"]
  by (simp_all add: eliminateRow_h_def eliminateRow_def working_readCell [OF w] k i)

lemma length_fold_mat_set:
  "length (fold (\<lambda>j m'. mat_set m' k j (g j m')) js m) = length m"
  by (induction js arbitrary: m) simp_all

lemma length_eliminateRow [simp]: "length (eliminateRow m i k n) = length m"
  by (simp only: eliminateRow_def Let_def length_fold_mat_set)

lemma working_eliminate_fold:
  assumes i: "i < length m0"
  shows "working L pm store m \<Longrightarrow> length m = length m0 \<Longrightarrow> \<forall>k\<in>set ks. k < length m0 \<Longrightarrow>
    working L pm (fold (\<lambda>k store'. eliminateRow_h store' pm i k n) ks store)
      (fold (\<lambda>k m'. eliminateRow m' i k n) ks m)
    \<and> take L (fold (\<lambda>k store'. eliminateRow_h store' pm i k n) ks store) = take L store
    \<and> length (fold (\<lambda>k m'. eliminateRow m' i k n) ks m) = length m0"
proof (induction ks arbitrary: store m)
  case Nil
  then show ?case by simp
next
  case (Cons k ks)
  from Cons.prems i have km: "k < length m" and im: "i < length m" by simp_all
  from working_eliminateRow [OF Cons.prems(1) km im, of n]
  have w': "working L pm (eliminateRow_h store pm i k n) (eliminateRow m i k n)"
    and t': "take L (eliminateRow_h store pm i k n) = take L store"
    by simp_all
  from Cons.IH [OF w'] Cons.prems(2,3) t' show ?case by simp
qed

lemma working_eliminate:
  assumes w: "working L pm store m" and i: "i < length m"
  shows "working L pm (eliminate_h store pm i (length m)) (eliminate m i (length m))"
    and "take L (eliminate_h store pm i (length m)) = take L store"
    and "length (eliminate m i (length m)) = length m"
  using working_eliminate_fold [OF i w refl, of "[Suc i..<length m]" "length m"]
  by (simp_all add: eliminate_h_def eliminate_def)

lemma working_pivotStep:
  assumes w: "working L pm store m" and i: "i < length m"
  shows "case pivotStep (length m) i (m, d) of
           None \<Rightarrow> pivotStep_h (length m) pm i (store, d) = None
         | Some (m', d') \<Rightarrow>
             (\<exists>store'. pivotStep_h (length m) pm i (store, d) = Some (store', d')
                \<and> working L pm store' m' \<and> take L store' = take L store
                \<and> length m' = length m)"
proof -
  let ?n = "length m"
  let ?r = "findMaxRow m i ?n"
  from findMaxRow_range [OF i] have r: "?r < ?n" by simp
  have fr: "findMaxRow_h store pm i ?n = ?r" by (rule working_findMaxRow [OF w i])
  have rd: "readCell store pm ?r i = m ! ?r ! i" by (rule working_readCell [OF w r])
  show ?thesis
  proof (cases "\<bar>m ! ?r ! i\<bar> < 1 / 10 ^ 10")
    case True
    then show ?thesis by (simp add: pivotStep_def pivotStep_h_def fr rd Let_def)
  next
    case ns: False
    show ?thesis
    proof (cases "?r = i")
      case True
      from working_eliminate [OF w i] working_readCell [OF w i, of i] ns True
      show ?thesis by (simp add: pivotStep_def pivotStep_h_def fr rd Let_def)
    next
      case False
      from working_swapRows [OF w i r]
      have w1: "working L pm (swapRows_h store pm i ?r) (swapRows m i ?r)"
        and t1: "take L (swapRows_h store pm i ?r) = take L store"
        by simp_all
      have i1: "i < length (swapRows m i ?r)" using i by simp
      from working_eliminate [OF w1 i1] working_readCell [OF w1 i1, of i] ns False t1
      show ?thesis by (simp add: pivotStep_def pivotStep_h_def fr rd Let_def)
    qed
  qed
qed

lemma working_elimLoop:
  "working L pm store m \<Longrightarrow> length m = n \<Longrightarrow>
   fst (elimLoop_h n pm i (store, d)) = elimLoop n i (m, d)
   \<and> take L (snd (elimLoop_h n pm i (store, d))) = take L store"
proof (induction "n - i" arbitrary: i store m d)
  case 0
  then show ?case
    by (subst elimLoop_h.simps, subst elimLoop.simps, subst elimLoop_h.simps) simp
next
  case (Suc k)
  then have i: "i < length m" by simp
  note ps = working_pivotStep [OF Suc.prems(1) i, of d]
  show ?case
  proof (cases "pivotStep n i (m, d)")
    case None
    with ps Suc.prems(2) have "pivotStep_h n pm i (store, d) = None" by simp
    with None i Suc.prems(2) show ?thesis
      by (subst elimLoop_h.simps, subst elimLoop.simps, subst elimLoop_h.simps) simp
  next
    case (Some s')
    obtain m' d' where s': "s' = (m', d')" by (cases s')
    from ps Some s' Suc.prems(2) obtain store'
      where st: "pivotStep_h n pm i (store, d) = Some (store', d')"
        and w': "working L pm store' m'" and t': "take L store' = take L store"
        and l': "length m' = n"
      by auto
    from Suc.hyps(2) have "k = n - Suc i" by simp
    from Suc.hyps(1) [OF this w' l', of d']
    have "fst (elimLoop_h n pm (Suc i) (store', d')) = elimLoop n (Suc i) (m', d')"
      and "take L (snd (elimLoop_h n pm (Suc i) (store', d'))) = take L store'"
      by simp_all
    with Some s' st t' i Suc.prems(2) show ?thesis
      by (subst elimLoop_h.simps, subst elimLoop.simps, subst elimLoop_h.simps) simp
  qed
qed

lemma numsAt_append: "r < length store \<Longrightarrow> numsAt (store @ ext) r = numsAt store r"
  by (simp add: numsAt_def nth_append)

lemma refsAt_append: "r < length store \<Longrightarrow> refsAt (store @ ext) r = refsAt store r"
  by (simp add: refsAt_def nth_append)

lemma mapRows_gen:
  "\<exists>rows. length rows = length rs
     \<and> mapRows f store rs
         = ([length store..<length store + length rs], store @ map NumArr rows)
     \<and> ((\<forall>r\<in>set rs. r < length store) \<longrightarrow> rows = map (\<lambda>r. f (numsAt store r)) rs)"
proof (induction rs arbitrary: store)
  case Nil
  show ?case by simp
next
  case (Cons r rs)
  let ?store1 = "store @ [NumArr (f (numsAt store r))]"
  from Cons [of ?store1] obtain rows where rows: "length rows = length rs"
    "mapRows f ?store1 rs = ([length ?store1..<length ?store1 + length rs], ?store1 @ map NumArr rows)"
    "(\<forall>r\<in>set rs. r < length ?store1) \<longrightarrow> rows = map (\<lambda>r. f (numsAt ?store1 r)) rs"
    by blast
  have up: "[length store..<Suc (length store + length rs)]
      = length store # [Suc (length store)..<Suc (length store + length rs)]"
    by (rule upt_conv_Cons) simp
  have valid: "rows = map (\<lambda>r. f (numsAt store r)) rs" if "\<forall>r\<in>set (r # rs). r < length store"
  proof -
    from that have "\<forall>r\<in>set rs. r < length ?store1" by auto
    with rows(3) have "rows = map (\<lambda>r. f (numsAt ?store1 r)) rs" by blast
    also have "\<dots> = map (\<lambda>r. f (numsAt store r)) rs"
      using that by (intro map_cong refl) (simp add: numsAt_append)
    finally show ?thesis .
  qed
  show ?case
  proof (intro exI [of _ "f (numsAt store r) # rows"] conjI impI)
    show "mapRows f store (r # rs)
      = ([length store..<length store + length (r # rs)],
         store @ map NumArr (f (numsAt store r) # rows))"
      using rows(2) up by (simp add: alloc_def del: upt_Suc)
  qed (use rows(1) valid in simp_all)
qed

lemma working_after_copy:
  "working (length store) (length store + length rows)
     (store @ map NumArr rows @ [RefArr [length store..<length store + length rows]]) rows"
  unfolding working_def
  by (intro conjI exI [of _ "[length store..<length store + length rows]"])
    (simp_all add: nth_append)

lemma determinant_h_run:
  "\<exists>rows. length rows = length (refsAt store a)
     \<and> ((\<forall>r\<in>set (refsAt store a). r < length store) \<longrightarrow> rows = matAt store a)
     \<and> determinant_h store a
         = (if length rows = 0 then (1, store)
            else if length rows = 1 then (numsAt store (refsAt store a ! 0) ! 0, store)
            else elimLoop_h (length rows) (length store + length rows) 0
                   (store @ map NumArr rows @ [RefArr [length store..<length store + length rows]], 1))"
proof -
  from mapRows_gen [of "refsAt store a" "\<lambda>row. row" store] obtain rows
    where rows: "length rows = length (refsAt store a)"
      "mapRows (\<lambda>row. row) store (refsAt store a)
         = ([length store..<length store + length (refsAt store a)], store @ map NumArr rows)"
      "(\<forall>r\<in>set (refsAt store a). r < length store) \<longrightarrow> rows = map (\<lambda>r. numsAt store r) (refsAt store a)"
    by blast
  show ?thesis
    by (rule exI [of _ rows]) (use rows in \<open>simp add: determinant_h_def Let_def alloc_def matAt_def\<close>)
qed

lemma determinant_h_frame: "take (length store) (snd (determinant_h store a)) = store"
proof -
  from determinant_h_run [of store a] obtain rows
    where run: "determinant_h store a
         = (if length rows = 0 then (1, store)
            else if length rows = 1 then (numsAt store (refsAt store a ! 0) ! 0, store)
            else elimLoop_h (length rows) (length store + length rows) 0
                   (store @ map NumArr rows @ [RefArr [length store..<length store + length rows]], 1))"
    by blast
  from working_elimLoop [OF working_after_copy [of store rows] refl, where i = 0 and d = 1]
  have "take (length store) (snd (elimLoop_h (length rows) (length store + length rows) 0
      (store @ map NumArr rows @ [RefArr [length store..<length store + length rows]], 1))) = store"
    by simp
  then show ?thesis unfolding run by simp
qed

lemma wfMatrix_valid:
  assumes "wfMatrix store a" and "r \<in> set (refsAt store a)"
  shows "r < length store \<and> (\<exists>row. store ! r = NumArr row)"
proof -
  from assms(1) have a: "a < length store" by (simp add: wfMatrix_def)
  from assms(2) a obtain rs where rs: "store ! a = RefArr rs" "refsAt store a = rs"
    by (cases "store ! a") (simp_all add: refsAt_def)
  from assms(1) rs(1) have "list_all (\<lambda>r. r < length store
      \<and> (case store ! r of NumArr row \<Rightarrow> True | RefArr qs \<Rightarrow> False)) rs"
    by (simp add: wfMatrix_def)
  with assms(2) rs(2) have "r < length store"
    and "case store ! r of NumArr row \<Rightarrow> True | RefArr qs \<Rightarrow> False"
    by (simp_all add: list_all_iff)
  then show ?thesis by (cases "store ! r") simp_all
qed

lemma determinant_h_value:
  assumes "wfMatrix store a"
  shows "fst (determinant_h store a) = determinant (matAt store a)"
proof -
  from assms have valid: "\<forall>r\<in>set (refsAt store a). r < length store"
    using wfMatrix_valid by blast
  from determinant_h_run [of store a] valid
  have len: "length (matAt store a) = length (refsAt store a)"
    and run: "determinant_h store a
         = (if length (matAt store a) = 0 then (1, store)
            else if length (matAt store a) = 1 then (numsAt store (refsAt store a ! 0) ! 0, store)
            else elimLoop_h (length (matAt store a)) (length store + length (matAt store a)) 0
                   (store @ map NumArr (matAt store a)
                     @ [RefArr [length store..<length store + length (matAt store a)]], 1))"
    by auto
  from working_elimLoop [OF working_after_copy [of store "matAt store a"] refl,
      where i = 0 and d = 1]
  have loop: "fst (elimLoop_h (length (matAt store a)) (length store + length (matAt store a)) 0
      (store @ map NumArr (matAt store a)
         @ [RefArr [length store..<length store + length (matAt store a)]], 1))
      = elimLoop (length (matAt store a)) 0 (matAt store a, 1)"
    by simp
  have one: "numsAt store (refsAt store a ! 0) ! 0 = matAt store a ! 0 ! 0"
    if "length (matAt store a) = 1"
    using that len by (simp add: matAt_def)
  show ?thesis
    unfolding run determinant_def Let_def using loop one by simp
qed

lemma filterIndexNot_map: "filterIndexNot i (map f xs) = map f (filterIndexNot i xs)"
  by (simp add: filterIndexNot_deleteAt deleteAt_def take_map drop_map)

lemma set_filterIndexNot: "set (filterIndexNot i xs) \<subseteq> set xs"
  unfolding filterIndexNot_deleteAt deleteAt_def
  using set_take_subset [of i xs] set_drop_subset [of "Suc i" xs] by auto

lemma working_wfMatrix: "working L pm store m \<Longrightarrow> wfMatrix store pm"
  by (drule working_refs) (auto simp add: wfMatrix_def list_all_length)

lemma minorDet_h_run:
  "\<exists>rows. ((\<forall>r\<in>set (refsAt store a). r < length store) \<longrightarrow>
             rows = minorOf (matAt store a) i)
     \<and> minorDet_h store a i
         = determinant_h
             ((store @ [RefArr (filterIndexNot i (refsAt store a))]) @ map NumArr rows
                @ [RefArr [Suc (length store)..<Suc (length store) + length rows]])
             (Suc (length store) + length rows)"
proof -
  let ?fr = "filterIndexNot i (refsAt store a)"
  let ?store1 = "store @ [RefArr ?fr]"
  have fr: "refsAt ?store1 (length store) = ?fr" by (simp add: refsAt_def)
  from mapRows_gen [of ?fr "filterIndexNot i" ?store1] obtain rows
    where rows: "length rows = length ?fr"
      "mapRows (filterIndexNot i) ?store1 ?fr
         = ([length ?store1..<length ?store1 + length ?fr], ?store1 @ map NumArr rows)"
      "(\<forall>r\<in>set ?fr. r < length ?store1) \<longrightarrow>
         rows = map (\<lambda>r. filterIndexNot i (numsAt ?store1 r)) ?fr"
    by blast
  have val: "rows = minorOf (matAt store a) i" if v: "\<forall>r\<in>set (refsAt store a). r < length store"
  proof -
    from v set_filterIndexNot [of i "refsAt store a"] have v': "\<forall>r\<in>set ?fr. r < length store"
      by blast
    then have "\<forall>r\<in>set ?fr. r < length ?store1" by auto
    with rows(3) have "rows = map (\<lambda>r. filterIndexNot i (numsAt ?store1 r)) ?fr" by blast
    also have "\<dots> = map (\<lambda>r. filterIndexNot i (numsAt store r)) ?fr"
      using v' by (intro map_cong refl) (simp add: numsAt_append)
    also have "\<dots> = minorOf (matAt store a) i"
      by (simp add: minorOf_def matAt_def filterIndexNot_map)
    finally show ?thesis .
  qed
  show ?thesis
    by (rule exI [of _ rows])
      (use rows(1,2) val in \<open>simp add: minorDet_h_def Let_def alloc_def fr\<close>)
qed

lemma take_frame_length:
  assumes "take (length s) s' = s"
  shows "length s \<le> length s'"
proof -
  from assms have "length (take (length s) s') = length s" by simp
  then show ?thesis by simp
qed

lemma minorDet_h_frame: "take (length store) (snd (minorDet_h store a i)) = store"
proof -
  from minorDet_h_run [of store a i] obtain rows
    where run: "minorDet_h store a i
         = determinant_h
             ((store @ [RefArr (filterIndexNot i (refsAt store a))]) @ map NumArr rows
                @ [RefArr [Suc (length store)..<Suc (length store) + length rows]])
             (Suc (length store) + length rows)"
    by blast
  let ?store3 = "(store @ [RefArr (filterIndexNot i (refsAt store a))]) @ map NumArr rows
                @ [RefArr [Suc (length store)..<Suc (length store) + length rows]]"
  let ?res = "snd (determinant_h ?store3 (Suc (length store) + length rows))"
  have f: "take (length ?store3) ?res = ?store3" by (rule determinant_h_frame)
  have "take (length store) ?res = take (length store) (take (length ?store3) ?res)"
    by (simp add: min_def)
  also have "\<dots> = store" unfolding f by simp
  finally show ?thesis unfolding run .
qed

lemma minorDet_h_value:
  assumes "wfMatrix store a"
  shows "fst (minorDet_h store a i) = determinant (minorOf (matAt store a) i)"
proof -
  from assms have valid: "\<forall>r\<in>set (refsAt store a). r < length store"
    using wfMatrix_valid by blast
  let ?m = "minorOf (matAt store a) i"
  let ?store1 = "store @ [RefArr (filterIndexNot i (refsAt store a))]"
  let ?store3 = "?store1 @ map NumArr ?m @ [RefArr [length ?store1..<length ?store1 + length ?m]]"
  from minorDet_h_run [of store a i] valid
  have run: "minorDet_h store a i = determinant_h ?store3 (length ?store1 + length ?m)"
    by auto
  have w: "working (length ?store1) (length ?store1 + length ?m) ?store3 ?m"
    by (rule working_after_copy)
  from determinant_h_value [OF working_wfMatrix [OF w]] working_matAt [OF w]
  show ?thesis unfolding run by simp
qed

lemma frame_extends:
  assumes "take (length store) s = store" and "wfMatrix store a"
  shows "wfMatrix s a" and "matAt s a = matAt store a" and "refsAt s a = refsAt store a"
proof -
  from assms(1) have s: "s = store @ drop (length store) s"
    by (metis append_take_drop_id)
  from assms(2) have a: "a < length store" by (simp add: wfMatrix_def)
  have sa: "s ! a = store ! a" using a by (subst s) (simp add: nth_append)
  have len: "length store \<le> length s" by (rule take_frame_length [OF assms(1)])
  show r: "refsAt s a = refsAt store a"
    using a by (subst s) (simp add: refsAt_append)
  have rows: "r < length store \<and> (\<exists>row. store ! r = NumArr row)" if "r \<in> set (refsAt store a)" for r
    using wfMatrix_valid [OF assms(2) that] .
  have sr: "s ! r = store ! r" if "r \<in> set (refsAt store a)" for r
    using rows [OF that] by (subst s) (simp add: nth_append)
  show "matAt s a = matAt store a"
    unfolding matAt_def r
  proof (intro map_cong refl)
    fix r assume "r \<in> set (refsAt store a)"
    from rows [OF this] show "numsAt s r = numsAt store r"
      by (subst s) (simp add: numsAt_append)
  qed
  from assms(2) obtain rs where rs: "store ! a = RefArr rs"
    by (cases "store ! a") (simp_all add: wfMatrix_def)
  with a have rsa: "refsAt store a = rs" by (simp add: refsAt_def)
  have "r < length s \<and> (case s ! r of NumArr row \<Rightarrow> True | RefArr qs \<Rightarrow> False)"
    if "r \<in> set rs" for r
  proof -
    from that rsa have m: "r \<in> set (refsAt store a)" by simp
    from rows [OF m] obtain row where "r < length store" "store ! r = NumArr row" by blast
    with sr [OF m] len show ?thesis by simp
  qed
  then have "list_all (\<lambda>r. r < length s
      \<and> (case s ! r of NumArr row \<Rightarrow> True | RefArr qs \<Rightarrow> False)) rs"
    by (simp add: list_all_iff)
  with a len show "wfMatrix s a"
    unfolding wfMatrix_def sa rs by simp
qed

lemma fold_minorDet_frame:
  "L \<le> length s \<Longrightarrow>
   take L (snd (fold (\<lambda>i (ds, store'). case minorDet_h store' a i of
       (d, store'') \<Rightarrow> (ds @ [(i, d)], store'')) idxs (ds0, s))) = take L s"
proof (induction idxs arbitrary: ds0 s)
  case Nil
  show ?case by simp
next
  case (Cons i idxs)
  obtain d s' where r: "minorDet_h s a i = (d, s')" by (cases "minorDet_h s a i")
  from minorDet_h_frame [of s a i] have f: "take (length s) s' = s" by (simp add: r)
  from take_frame_length [OF f] Cons.prems have len: "L \<le> length s'" by simp
  have "take L s' = take L (take (length s) s')" using Cons.prems by (simp add: min_def)
  then have t: "take L s' = take L s" by (simp only: f)
  from Cons.IH [OF len, of "ds0 @ [(i, d)]"] t show ?case by (simp add: r)
qed

lemma fold_minorDet_value:
  assumes wf: "wfMatrix store a"
  shows "take (length store) s = store \<Longrightarrow>
   fst (fold (\<lambda>i (ds, store'). case minorDet_h store' a i of
       (d, store'') \<Rightarrow> (ds @ [(i, d)], store'')) idxs (ds0, s))
   = ds0 @ map (\<lambda>i. (i, determinant (minorOf (matAt store a) i))) idxs"
proof (induction idxs arbitrary: ds0 s)
  case Nil
  show ?case by simp
next
  case (Cons i idxs)
  obtain d s' where r: "minorDet_h s a i = (d, s')" by (cases "minorDet_h s a i")
  note ext = frame_extends [OF Cons.prems wf]
  from minorDet_h_value [OF ext(1), of i] have d: "d = determinant (minorOf (matAt store a) i)"
    by (simp add: r ext(2))
  from minorDet_h_frame [of s a i] have f: "take (length s) s' = s" by (simp add: r)
  from take_frame_length [OF Cons.prems] have len: "length store \<le> length s" .
  have "take (length store) s' = take (length store) (take (length s) s')"
    using len by (simp add: min_def)
  then have t: "take (length store) s' = store" by (simp only: f Cons.prems)
  from Cons.IH [OF t, of "ds0 @ [(i, d)]"] show ?case by (simp add: r d)
qed

lemma minorOf_map: "minorOf (map (map f) mat) i = map (map f) (minorOf mat i)"
  by (simp add: minorOf_def filterIndexNot_map)

text \<open>
  Claim C10. \<open>determinant\<close> leaves every object that exists when it is called as it is:
  the store it returns extends the store it was given, so the matrix passed in, its array
  and its rows alike, is unchanged; what it eliminates on are the new rows of its copy. The
  same holds for the loop that computes all minors, so each minor is taken from the same
  matrix. For a matrix as the type \<open>number[][]\<close> has it, the numbers returned are those of
  the functions on values: the determinant of the matrix read from the store, and the
  list of the determinants of its minors, which for the signed matrix of a colouring is
  the result of \<open>computeMinorDets\<close>.
\<close>

theorem determinant_leaves_input_unchanged:
  "take (length store) (snd (determinant_h store a)) = store
   \<and> take (length store) (snd (minorDets_h store a)) = store
   \<and> (wfMatrix store a \<longrightarrow>
        fst (determinant_h store a) = determinant (matAt store a)
        \<and> matAt (snd (determinant_h store a)) a = matAt store a
        \<and> fst (minorDets_h store a)
            = map (\<lambda>i. (i, determinant (minorOf (matAt store a) i))) [0..<length (matAt store a)]
        \<and> matAt (snd (minorDets_h store a)) a = matAt store a
        \<and> (2 \<le> length (coloredTriangles colorMap)
             \<and> matAt store a = map (map real_of_int) (buildMatrix (coloredTriangles colorMap))
             \<longrightarrow> fst (minorDets_h store a) = computeMinorDets colorMap))"
proof (intro conjI impI)
  show f1: "take (length store) (snd (determinant_h store a)) = store"
    by (rule determinant_h_frame)
  from fold_minorDet_frame [of "length store" store a "[0..<length (refsAt store a)]" "[]"]
  show f2: "take (length store) (snd (minorDets_h store a)) = store"
    by (simp add: minorDets_h_def)
  assume wf: "wfMatrix store a"
  show "fst (determinant_h store a) = determinant (matAt store a)"
    by (rule determinant_h_value [OF wf])
  show "matAt (snd (determinant_h store a)) a = matAt store a"
    by (rule frame_extends(2) [OF f1 wf])
  have "take (length store) store = store" by simp
  from fold_minorDet_value [OF wf this, of "[0..<length (refsAt store a)]" "[]"]
  show "fst (minorDets_h store a)
      = map (\<lambda>i. (i, determinant (minorOf (matAt store a) i))) [0..<length (matAt store a)]"
    by (simp add: minorDets_h_def matAt_def)
  then show "fst (minorDets_h store a) = computeMinorDets colorMap"
    if "2 \<le> length (coloredTriangles colorMap)
        \<and> matAt store a = map (map real_of_int) (buildMatrix (coloredTriangles colorMap))"
    using that by (simp add: computeMinorDets_def Let_def minorOf_map)
  show "matAt (snd (minorDets_h store a)) a = matAt store a"
    by (rule frame_extends(2) [OF f2 wf])
qed

theorem determinant_leaves_input_unchanged_witness:
  "wfMatrix [NumArr [1, 2], RefArr [0, 0]] 1
   \<and> determinant_h [NumArr [1, 2], RefArr [0, 0]] 1
       = (0, [NumArr [1, 2], RefArr [0, 0], NumArr [1, 2], NumArr [0, 0], RefArr [2, 3]])
   \<and> determinant (matAt [NumArr [1, 2], RefArr [0, 0]] 1) = 0
   \<and> fst (minorDets_h [NumArr [1, 2], RefArr [0, 0]] 1) = [(0, 2), (1, 1)]
   \<and> take 2 (snd (minorDets_h [NumArr [1, 2], RefArr [0, 0]] 1)) = [NumArr [1, 2], RefArr [0, 0]]"
proof -
  let ?store = "[NumArr [1, 2], RefArr [0, 0]]"
  have wf: "wfMatrix ?store 1" by (simp add: wfMatrix_def)
  have len: "length ?store = 2" by simp
  have run: "determinant_h ?store 1
       = (0, [NumArr [1, 2], RefArr [0, 0], NumArr [1, 2], NumArr [0, 0], RefArr [2, 3]])"
    by code_simp
  have ms: "fst (minorDets_h ?store 1) = [(0, 2), (1, 1)]" by code_simp
  from determinant_leaves_input_unchanged [of ?store 1] wf
  have "fst (determinant_h ?store 1) = determinant (matAt ?store 1)"
    and "take (length ?store) (snd (minorDets_h ?store 1)) = ?store"
    by blast+
  with run ms wf show ?thesis unfolding len by simp
qed

end
